theory Spec2Isabelle
  imports Complex_Main "HOL-Library.Word"
begin

section \<open>JavaScript numbers\<close>

text \<open>
  Every arithmetic operation of \<^verbatim>\<open>color-wheel.js\<close> is an operation on IEEE 754
  binary64 numbers. A finite double is modelled by the real number it denotes, and every
  operation by the exact operation followed by \<open>fl\<close>, rounding to the nearest double
  with ties to the even significand (53 significant bits, gradual underflow below
  \<open>2\<^sup>-\<^sup>1\<^sup>0\<^sup>2\<^sup>2\<close>). Negative zero is identified with zero: the program never divides by a
  zero and prints \<open>-0\<close> as \<open>0\<close>. Overflow to an infinity is not modelled: every operand
  below is bounded by 360 in absolute value.
\<close>

function up2 :: "real \<Rightarrow> nat" where
  "up2 x = (if x < 2 then 0 else Suc (up2 (x / 2)))"
  by pat_completeness auto
termination
proof (relation "measure (\<lambda>x. nat \<lfloor>x\<rfloor>)")
  fix x :: real
  assume "\<not> x < 2"
  then have "x / 2 \<le> x - 1" by simp
  then have "\<lfloor>x / 2\<rfloor> < \<lfloor>x\<rfloor>" by linarith
  moreover have "0 < \<lfloor>x\<rfloor>" using \<open>\<not> x < 2\<close> by linarith
  ultimately show "(x / 2, x) \<in> measure (\<lambda>x. nat \<lfloor>x\<rfloor>)" by simp
qed simp

function down2 :: "real \<Rightarrow> nat" where
  "down2 x = (if x \<le> 0 \<or> 1 \<le> x then 0 else Suc (down2 (2 * x)))"
  by pat_completeness auto
termination
proof (relation "measure (\<lambda>x. nat \<lfloor>1 / x\<rfloor>)")
  fix x :: real
  assume "\<not> (x \<le> 0 \<or> 1 \<le> x)"
  then have x: "0 < x" "x < 1" by auto
  define y where "y = 1 / x"
  have y: "1 < y" using x by (simp add: y_def)
  have "y / 2 < of_int \<lfloor>y\<rfloor>"
  proof (cases "y < 2")
    case True
    have "1 \<le> \<lfloor>y\<rfloor>" using y by linarith
    then have "(1::real) \<le> of_int \<lfloor>y\<rfloor>" by linarith
    then show ?thesis using True by linarith
  next
    case False
    then show ?thesis by linarith
  qed
  then have "\<lfloor>y / 2\<rfloor> < \<lfloor>y\<rfloor>" by linarith
  moreover have "1 / (2 * x) = y / 2" by (simp add: y_def)
  ultimately have "\<lfloor>1 / (2 * x)\<rfloor> < \<lfloor>1 / x\<rfloor>" by (simp only: y_def)
  moreover have "0 < \<lfloor>1 / x\<rfloor>" using y unfolding y_def by linarith
  ultimately have "nat \<lfloor>1 / (2 * x)\<rfloor> < nat \<lfloor>1 / x\<rfloor>" by linarith
  then show "(2 * x, x) \<in> measure (\<lambda>x. nat \<lfloor>1 / x\<rfloor>)"
    by (simp only: in_measure)
qed simp

text \<open>The binary exponent of a positive number: \<open>2 ^ ilog2 x \<le> x < 2 ^ (ilog2 x + 1)\<close>.\<close>

definition ilog2 :: "real \<Rightarrow> int" where
  "ilog2 x = (if 1 \<le> x then int (up2 x) else - int (down2 x))"

definition pow2 :: "int \<Rightarrow> real" where
  "pow2 e = (if 0 \<le> e then 2 ^ nat e else 1 / 2 ^ nat (- e))"

text \<open>Round to the nearest integer, ties to even.\<close>

definition rne :: "real \<Rightarrow> int" where
  "rne y = (let f = \<lfloor>y\<rfloor>; r = y - of_int f in
     if r < 1 / 2 then f else if 1 / 2 < r then f + 1 else if even f then f else f + 1)"

text \<open>
  Round to the nearest double. The spacing of the doubles around \<open>x\<close> is
  \<open>2 ^ (e - 52)\<close>, where \<open>e\<close> is the exponent of \<open>x\<close>, at least \<open>-1022\<close>.
\<close>

definition fl :: "real \<Rightarrow> real" where
  "fl x = (if x = 0 then 0 else
     let e = max (ilog2 \<bar>x\<bar>) (- 1022); q = pow2 (e - 52) in of_int (rne (x / q)) * q)"

text \<open>The exponent that \<open>fl\<close> uses for \<open>x\<close>.\<close>

definition expo :: "real \<Rightarrow> int" where
  "expo x = max (ilog2 \<bar>x\<bar>) (- 1022)"

definition fadd :: "real \<Rightarrow> real \<Rightarrow> real" where
  "fadd x y = fl (x + y)"

definition fsub :: "real \<Rightarrow> real \<Rightarrow> real" where
  "fsub x y = fl (x - y)"

definition fmul :: "real \<Rightarrow> real \<Rightarrow> real" where
  "fmul x y = fl (x * y)"

definition fdiv :: "real \<Rightarrow> real \<Rightarrow> real" where
  "fdiv x y = fl (x / y)"

text \<open>
  \<^verbatim>\<open>Math.round\<close>: the nearest integer, a tie going up. The result is exact.
\<close>

definition js_round :: "real \<Rightarrow> int" where
  "js_round x = \<lfloor>x + 1 / 2\<rfloor>"

text \<open>
  The remainder \<^verbatim>\<open>x % y\<close> has the sign of the dividend and is exact in binary64:
  the quotient is truncated towards zero.
\<close>

definition js_rem :: "real \<Rightarrow> real \<Rightarrow> real" where
  "js_rem x y = (let q = x / y in x - y * of_int (if 0 \<le> q then \<lfloor>q\<rfloor> else - \<lfloor>- q\<rfloor>))"

section \<open>Colour conversion\<close>

type_synonym byte = "8 word"

text \<open>
  \<^verbatim>\<open>_rgbToHsl(r,g,b)\<close>, lines 30 to 46. Its callers pass channel values of a
  \<^verbatim>\<open>Uint8ClampedArray\<close> or two hexadecimal digits, so the arguments are bytes. The
  \<^verbatim>\<open>switch (max)\<close> takes the first case that is identical to \<open>max\<close>; \<open>max\<close> is one
  of the three channels, so the last case needs no test.
\<close>

definition rgbToHsl :: "byte \<Rightarrow> byte \<Rightarrow> byte \<Rightarrow> real \<times> real \<times> real" where
  "rgbToHsl r8 g8 b8 =
    (let r = fdiv (of_nat (unat r8)) 255;
         g = fdiv (of_nat (unat g8)) 255;
         b = fdiv (of_nat (unat b8)) 255;
         mx = max r (max g b);
         mn = min r (min g b);
         l = fdiv (fadd mx mn) 2
     in if mx = mn then (fmul 0 360, 0, l)
        else
          let d = fsub mx mn;
              s = (if 1 / 2 < l then fdiv d (fsub (fsub 2 mx) mn) else fdiv d (fadd mx mn));
              h = (if mx = r then fadd (fdiv (fsub g b) d) (if g < b then 6 else 0)
                   else if mx = g then fadd (fdiv (fsub b r) d) 2
                   else fadd (fdiv (fsub r g) d) 4)
          in (fmul (fdiv h 6) 360, s, l))"

text \<open>
  The inner function \<^verbatim>\<open>hue2rgb\<close> of \<^verbatim>\<open>_hslToRgb\<close>, lines 52 to 59, for an argument
  that is a number.
\<close>

definition hue2rgb :: "real \<Rightarrow> real \<Rightarrow> real \<Rightarrow> real" where
  "hue2rgb p q t =
    (let t1 = (if t < 0 then fadd t 1 else t);
         t2 = (if 1 < t1 then fsub t1 1 else t1)
     in if t2 < fdiv 1 6 then fadd p (fmul (fmul (fsub q p) 6) t2)
        else if t2 < 1 / 2 then q
        else if t2 < fdiv 2 3 then fadd p (fmul (fmul (fsub q p) (fsub (fdiv 2 3) t2)) 6)
        else p)"

text \<open>
  \<^verbatim>\<open>_hslToRgb(h,s,l)\<close>, lines 48 to 64. Saturation and lightness are finite wherever
  the program calls it. The hue is \<open>None\<close> when it converts to \<^verbatim>\<open>NaN\<close>: then
  \<^verbatim>\<open>h/360\<close>, \<^verbatim>\<open>h + 1/3\<close> and \<^verbatim>\<open>h - 1/3\<close> are \<^verbatim>\<open>NaN\<close>, every comparison
  in \<^verbatim>\<open>hue2rgb\<close> is false, and each of the three calls returns \<open>p\<close>.
\<close>

definition hslToRgb :: "real option \<Rightarrow> real \<Rightarrow> real \<Rightarrow> int \<times> int \<times> int" where
  "hslToRgb h0 s l =
    (let q = (if l < 1 / 2 then fmul l (fadd 1 s) else fsub (fadd l s) (fmul l s));
         p = fsub (fmul 2 l) q
     in case h0 of
          None \<Rightarrow>
            (js_round (fmul p 255), js_round (fmul p 255), js_round (fmul p 255))
        | Some deg \<Rightarrow>
            (let h = fdiv deg 360;
                 r = js_round (fmul (hue2rgb p q (fadd h (fdiv 1 3))) 255);
                 g = js_round (fmul (hue2rgb p q h) 255);
                 b = js_round (fmul (hue2rgb p q (fsub h (fdiv 1 3))) 255)
             in (r, g, b)))"

section \<open>The pixel loop\<close>

text \<open>
  The store \<^verbatim>\<open>d[i] = n\<close> into a \<^verbatim>\<open>Uint8ClampedArray\<close> clamps the number to
  \<open>0..255\<close>; the numbers stored here are integers (results of \<^verbatim>\<open>Math.round\<close>), or
  \<^verbatim>\<open>NaN\<close>, which is stored as \<open>0\<close>.
\<close>

definition toUint8Clamp :: "int \<Rightarrow> byte" where
  "toUint8Clamp n = (if n < 0 then 0 else if 255 < n then 255 else word_of_int n)"

text \<open>
  A read \<^verbatim>\<open>d[j]\<close> of a typed array gives \<^verbatim>\<open>undefined\<close> beyond its length, here
  \<open>None\<close>; a store beyond its length is ignored, as \<open>d[j := v]\<close> is in HOL.
\<close>

definition rd :: "byte list \<Rightarrow> nat \<Rightarrow> byte option" where
  "rd d j = (if j < length d then Some (d ! j) else None)"

text \<open>
  The loop of \<^verbatim>\<open>_setHueInternal\<close>, lines 118 to 129, from index \<open>i\<close> on. The literals
  \<^verbatim>\<open>0.03\<close> and \<^verbatim>\<open>0.97\<close> are the doubles nearest to them. When a channel read is
  \<^verbatim>\<open>undefined\<close> (the length is no multiple of four, which no \<^verbatim>\<open>ImageData\<close> has),
  \<^verbatim>\<open>_rgbToHsl\<close> returns \<^verbatim>\<open>NaN\<close> three times, no comparison skips the pixel, and
  \<^verbatim>\<open>_hslToRgb\<close> returns \<^verbatim>\<open>NaN\<close> three times, which the stores turn into \<open>0\<close>.
\<close>

function recolorLoop :: "real option \<Rightarrow> nat \<Rightarrow> byte list \<Rightarrow> byte list" where
  "recolorLoop hue i d =
    (if i < length d then
       (if rd d (i + 3) = Some 0 then recolorLoop hue (i + 4) d
        else
          (case (rd d i, rd d (i + 1), rd d (i + 2)) of
             (Some r, Some g, Some b) \<Rightarrow>
               (let (h, sat, light) = rgbToHsl r g b in
                if light < fl (3 / 100) \<or> fl (97 / 100) < light
                then recolorLoop hue (i + 4) d
                else
                  (let (nr, ng, nb) = hslToRgb hue sat light in
                   recolorLoop hue (i + 4)
                     (d[i := toUint8Clamp nr, i + 1 := toUint8Clamp ng,
                        i + 2 := toUint8Clamp nb])))
           | _ \<Rightarrow> recolorLoop hue (i + 4) (d[i := 0, i + 1 := 0, i + 2 := 0])))
     else d)"
  by pat_completeness auto
termination
  by (relation "measure (\<lambda>(hue, i, d). length d - i)") auto

text \<open>
  The reference definition of the specification (section 4.2), one pixel at a time: a
  pixel is a record of four channels.
\<close>

type_synonym pixel = "byte \<times> byte \<times> byte \<times> byte"

definition recolorPixelSpec :: "real option \<Rightarrow> pixel \<Rightarrow> pixel" where
  "recolorPixelSpec hue px =
    (case px of (r, g, b, a) \<Rightarrow>
       if a = 0 then px
       else
         (let (h, sat, light) = rgbToHsl r g b in
          if light < fl (3 / 100) \<or> fl (97 / 100) < light then px
          else
            (let (nr, ng, nb) = hslToRgb hue sat light in
             (toUint8Clamp nr, toUint8Clamp ng, toUint8Clamp nb, a))))"

fun pixelsOf :: "byte list \<Rightarrow> pixel list" where
  "pixelsOf (r # g # b # a # rest) = (r, g, b, a) # pixelsOf rest"
| "pixelsOf _ = []"

fun bytesOf :: "pixel list \<Rightarrow> byte list" where
  "bytesOf [] = []"
| "bytesOf ((r, g, b, a) # ps) = r # g # b # a # bytesOf ps"

section \<open>Elements, the cache and the recolor operation\<close>

text \<open>
  The second argument of \<^verbatim>\<open>_setHueInternal\<close>: \<^verbatim>\<open>null\<close>, a number, or a member
  that \<^verbatim>\<open>NAMED_HUES\<close> inherits from \<^verbatim>\<open>Object.prototype\<close> (a function or an object,
  named by its key). No caller passes \<^verbatim>\<open>false\<close>. In arithmetic \<^verbatim>\<open>null\<close> converts to
  \<open>0\<close> and an inherited member to \<^verbatim>\<open>NaN\<close>.
\<close>

datatype target = Null | Hue real | Inherited string

fun toNumber :: "target \<Rightarrow> real option" where
  "toNumber Null = Some 0"
| "toNumber (Hue h) = Some h"
| "toNumber (Inherited k) = None"

text \<open>
  The fields of an image element that the program reads or writes. An absent
  \<^verbatim>\<open>data-\<close> attribute or a \<^verbatim>\<open>null\<close> is \<open>None\<close>; \<open>None\<close> and the empty string are
  the falsy values.
\<close>

record element =
  src :: string
  dataset_originalSrc :: "string option"
  dataset_src :: "string option"
  crossOrigin :: "string option"
  style_filter :: string

definition truthy :: "string option \<Rightarrow> bool" where
  "truthy v = (case v of None \<Rightarrow> False | Some s \<Rightarrow> s \<noteq> [])"

text \<open>
  What the browser holds for a source once it is loaded: the natural size, the pixel
  data that \<^verbatim>\<open>getImageData\<close> returns after \<^verbatim>\<open>drawImage\<close>, whether \<^verbatim>\<open>drawImage\<close>
  succeeds, and whether the canvas is still origin-clean after it. On a canvas that
  is not origin-clean (tainted by a cross-origin image), \<^verbatim>\<open>getImageData\<close> throws a
  \<^verbatim>\<open>SecurityError\<close>.
\<close>

record bitmap =
  naturalWidth :: nat
  naturalHeight :: nat
  pixels :: "byte list"
  drawable :: bool
  originClean :: bool

text \<open>
  The environment: which bitmap a source loads to (\<open>None\<close> when its load event never
  fires), the PNG encoder behind \<^verbatim>\<open>canvas.toDataURL\<close>, and the string conversion of
  the template literals.
\<close>

record env =
  fetch :: "string \<Rightarrow> bitmap option"
  toDataURL :: "nat \<Rightarrow> nat \<Rightarrow> byte list \<Rightarrow> string"
  toStr :: "target \<Rightarrow> string"

record state =
  elements :: "string \<Rightarrow> element option"
  cache :: "string \<Rightarrow> string option"

text \<open>
  How a call ends: at one of the \<^verbatim>\<open>return\<close> statements of \<^verbatim>\<open>_setHueInternal\<close>,
  never (the promise of line 88 stays pending), or with an exception that rejects the
  promise the entry point returned.
\<close>

datatype exit = NoElement | ResetDone | CacheHit | Fallback | Recolored

datatype exn = SecurityError

datatype outcome = Returned exit | Pending | Threw exn

text \<open>
  \<^verbatim>\<open>_ensureOriginalSrc\<close>, lines 66 to 70; \<open>currentSource\<close> is the expression
  \<^verbatim>\<open>img.src || img.dataset.src || ''\<close> of line 68.
\<close>

definition currentSource :: "element \<Rightarrow> string" where
  "currentSource img =
    (if src img \<noteq> [] then src img
     else if truthy (dataset_src img) then the (dataset_src img) else [])"

definition ensureOriginalSrc :: "element \<Rightarrow> element" where
  "ensureOriginalSrc img =
    (if \<not> truthy (dataset_originalSrc img)
     then img\<lparr>dataset_originalSrc := Some (currentSource img)\<rparr>
     else img)"

text \<open>
  The promise of lines 88 to 91 resolves when the element holds a completely loaded
  picture of nonzero width, at once or at its load event. An element without a source
  has no picture.
\<close>

definition ready :: "env \<Rightarrow> element \<Rightarrow> bitmap option" where
  "ready e el =
    (if src el = [] then None
     else case fetch e (src el) of
            None \<Rightarrow> None
          | Some bm \<Rightarrow> if naturalWidth bm = 0 then None else Some bm)"

definition cacheKey :: "env \<Rightarrow> string \<Rightarrow> target \<Rightarrow> string" where
  "cacheKey e itemId targetHue = itemId @ ''|'' @ toStr e targetHue"

definition fallbackFilter :: "env \<Rightarrow> target \<Rightarrow> string" where
  "fallbackFilter e targetHue = ''hue-rotate('' @ toStr e targetHue @ ''deg) saturate(1.1)''"

definition putElement :: "string \<Rightarrow> element \<Rightarrow> state \<Rightarrow> state" where
  "putElement itemId el s = s\<lparr>elements := (elements s)(itemId \<mapsto> el)\<rparr>"

text \<open>\<^verbatim>\<open>_setHueInternal\<close>, lines 72 to 136.\<close>

definition setHueInternal :: "env \<Rightarrow> string \<Rightarrow> target \<Rightarrow> state \<Rightarrow> outcome \<times> state" where
  "setHueInternal e itemId targetHue s =
    (case elements s itemId of
       None \<Rightarrow> (Returned NoElement, s)
     | Some el \<Rightarrow>
        if targetHue = Null then
          (let el1 = ensureOriginalSrc el;
               orig = dataset_originalSrc el1;
               el2 = (if truthy orig then el1\<lparr>src := the orig\<rparr> else el1)
           in (Returned ResetDone, putElement itemId (el2\<lparr>style_filter := []\<rparr>) s))
        else
          (let el1 = (if src el = [] \<and> truthy (dataset_src el)
                      then el\<lparr>src := the (dataset_src el)\<rparr> else el);
               el2 = (if \<not> truthy (crossOrigin el1)
                      then el1\<lparr>crossOrigin := Some ''anonymous''\<rparr> else el1)
           in case ready e el2 of
                None \<Rightarrow> (Pending, putElement itemId el2 s)
              | Some bm \<Rightarrow>
                 (case cache s (cacheKey e itemId targetHue) of
                    Some url \<Rightarrow>
                      (Returned CacheHit,
                       putElement itemId (el2\<lparr>src := url, style_filter := []\<rparr>) s)
                  | None \<Rightarrow>
                     (let el3 = ensureOriginalSrc el2 in
                      if \<not> drawable bm then
                        (Returned Fallback,
                         putElement itemId
                           (el3\<lparr>style_filter := fallbackFilter e targetHue\<rparr>) s)
                      else if \<not> originClean bm then
                        (Threw SecurityError, putElement itemId el3 s)
                      else
                        (let d = recolorLoop (toNumber targetHue) 0 (pixels bm);
                             url = toDataURL e (naturalWidth bm) (naturalHeight bm) d
                         in (Returned Recolored,
                             putElement itemId (el3\<lparr>src := url, style_filter := []\<rparr>)
                               (s\<lparr>cache := (cache s)(cacheKey e itemId targetHue \<mapsto> url)\<rparr>)))))))"

section \<open>The public entry points\<close>

text \<open>
  The value of \<^verbatim>\<open>Number(h)\<close> in \<^verbatim>\<open>_clampHue\<close>: a finite double, an infinity or
  \<^verbatim>\<open>NaN\<close>.
\<close>

datatype number = Finite real | PosInfinity | NegInfinity | NaN

text \<open>\<^verbatim>\<open>_clampHue\<close>, lines 138 to 143.\<close>

fun clampHue :: "number \<Rightarrow> real" where
  "clampHue (Finite h) = (let h1 = js_rem h 360 in if h1 < 0 then fadd h1 360 else h1)"
| "clampHue _ = 0"

definition NAMED_HUES :: "(string \<times> target) list" where
  "NAMED_HUES =
    [(''Original'', Null), (''Red'', Hue 0), (''Orange'', Hue 30), (''Yellow'', Hue 60),
     (''Green'', Hue 120), (''Cyan'', Hue 180), (''Blue'', Hue 240), (''Purple'', Hue 270),
     (''Pink'', Hue 320)]"

text \<open>
  \<^verbatim>\<open>NAMED_HUES\<close> is an object literal, so the operator \<^verbatim>\<open>in\<close> and the member access
  also find the properties it inherits from \<^verbatim>\<open>Object.prototype\<close>.
\<close>

definition objectPrototypeKeys :: "string list" where
  "objectPrototypeKeys =
    [''constructor'', ''__defineGetter__'', ''__defineSetter__'', ''hasOwnProperty'',
     ''__lookupGetter__'', ''__lookupSetter__'', ''isPrototypeOf'', ''propertyIsEnumerable'',
     ''toString'', ''valueOf'', ''__proto__'', ''toLocaleString'']"

text \<open>\<open>None\<close> when \<^verbatim>\<open>name in NAMED_HUES\<close> is false, else \<^verbatim>\<open>NAMED_HUES[name]\<close>.\<close>

definition lookupNamed :: "string \<Rightarrow> target option" where
  "lookupNamed name =
    (case map_of NAMED_HUES name of
       Some v \<Rightarrow> Some v
     | None \<Rightarrow> if name \<in> set objectPrototypeKeys then Some (Inherited name) else None)"

text \<open>\<^verbatim>\<open>ColorWheel.set\<close>, lines 148 to 151; the empty string is the falsy name.\<close>

definition set_named :: "env \<Rightarrow> string \<Rightarrow> string \<Rightarrow> state \<Rightarrow> outcome \<times> state" where
  "set_named e itemId name s =
    (if name = [] \<or> lookupNamed name = None then setHueInternal e itemId Null s
     else setHueInternal e itemId (the (lookupNamed name)) s)"

text \<open>\<^verbatim>\<open>ColorWheel.setHue\<close>, lines 152 to 154.\<close>

definition setHue :: "env \<Rightarrow> string \<Rightarrow> number \<Rightarrow> state \<Rightarrow> outcome \<times> state" where
  "setHue e itemId degrees s = setHueInternal e itemId (Hue (clampHue degrees)) s"

text \<open>
  \<^verbatim>\<open>ColorWheel.setHex\<close>, lines 155 to 176, for an argument that is a string, given
  by its UTF-16 code units. \<^verbatim>\<open>String.prototype.trim\<close> strips from both ends the white
  space and the line terminators of ECMAScript: the controls from U+0009 to U+000D, the
  space, U+00A0, U+FEFF, the other space separators of Unicode (U+1680, U+2000 to
  U+200A, U+202F, U+205F, U+3000) and U+2028, U+2029. The two regular expressions accept
  three or six hexadecimal digits after an optional \<open>#\<close>; with the flag \<^verbatim>\<open>i\<close> and
  without the flag \<^verbatim>\<open>u\<close> no code unit above 127 matches a letter of the class.
\<close>

type_synonym codeUnit = "16 word"

definition isSpace :: "codeUnit \<Rightarrow> bool" where
  "isSpace c =
    (c \<in> set [0x09, 0x0A, 0x0B, 0x0C, 0x0D, 0x20, 0xA0, 0x1680,
        0x2000, 0x2001, 0x2002, 0x2003, 0x2004, 0x2005, 0x2006, 0x2007, 0x2008, 0x2009, 0x200A,
        0x2028, 0x2029, 0x202F, 0x205F, 0x3000, 0xFEFF])"

definition trim :: "codeUnit list \<Rightarrow> codeUnit list" where
  "trim v = rev (dropWhile isSpace (rev (dropWhile isSpace v)))"

definition hexVal :: "codeUnit \<Rightarrow> nat option" where
  "hexVal c =
    (let n = unat c in
     if 48 \<le> n \<and> n \<le> 57 then Some (n - 48)
     else if 97 \<le> n \<and> n \<le> 102 then Some (n - 87)
     else if 65 \<le> n \<and> n \<le> 70 then Some (n - 55)
     else None)"

definition hexByte :: "codeUnit \<Rightarrow> codeUnit \<Rightarrow> byte" where
  "hexByte hi lo = of_nat (16 * the (hexVal hi) + the (hexVal lo))"

definition parseHex :: "codeUnit list \<Rightarrow> (byte \<times> byte \<times> byte) option" where
  "parseHex hex =
    (let v = trim hex;
         body = (case v of c # cs \<Rightarrow> if c = 0x23 then cs else v | [] \<Rightarrow> v)
     in if list_all (\<lambda>c. hexVal c \<noteq> None) body then
          (case body of
             [a, b, c] \<Rightarrow> Some (hexByte a a, hexByte b b, hexByte c c)
           | [a, a', b, b', c, c'] \<Rightarrow> Some (hexByte a a', hexByte b b', hexByte c c')
           | _ \<Rightarrow> None)
        else None)"

definition setHex :: "env \<Rightarrow> string \<Rightarrow> codeUnit list \<Rightarrow> state \<Rightarrow> outcome \<times> state" where
  "setHex e itemId hex s =
    (case parseHex hex of
       None \<Rightarrow> setHueInternal e itemId Null s
     | Some (r, g, b) \<Rightarrow>
        (case rgbToHsl r g b of
           (h, sat, light) \<Rightarrow> setHueInternal e itemId (Hue (clampHue (Finite h))) s))"

text \<open>\<^verbatim>\<open>ColorWheel.reset\<close>, line 177.\<close>

definition reset :: "env \<Rightarrow> string \<Rightarrow> state \<Rightarrow> outcome \<times> state" where
  "reset e itemId s = setHueInternal e itemId Null s"

section \<open>Runs of calls\<close>

text \<open>
  The calls of a page on the program, one after the other. Every entry point ends in
  \<^verbatim>\<open>_setHueInternal\<close> with the id of an element and a target, so a call is such a
  pair; a call begins in the state in which the call before it returned, threw or
  stayed pending.
\<close>

fun run :: "env \<Rightarrow> (string \<times> target) list \<Rightarrow> state \<Rightarrow> state" where
  "run e [] s = s"
| "run e (c # cs) s = run e cs (snd (setHueInternal e (fst c) (snd c) s))"

text \<open>
  The text that the template literal of line 93 gives a target has no vertical bar.
  The texts of \<^verbatim>\<open>null\<close>, of a number and of the members of \<^verbatim>\<open>Object.prototype\<close>
  have none.
\<close>

definition barFree :: "env \<Rightarrow> target \<Rightarrow> bool" where
  "barFree e t = (CHR ''|'' \<notin> set (toStr e t))"

section \<open>An example page\<close>

text \<open>
  A page with two image elements, \<open>hat\<close> and \<open>far\<close>, each showing a picture of one
  orange pixel. The picture of \<open>far\<close> comes from another origin without permission
  to read it, so a canvas it is drawn on is no longer origin-clean. The encoder names
  the two recolored pictures that occur below; the sources it names load to these
  pictures.
\<close>

definition hatBitmap :: bitmap where
  "hatBitmap = \<lparr>naturalWidth = 1, naturalHeight = 1, pixels = [200, 100, 50, 255],
     drawable = True, originClean = True\<rparr>"

definition exampleEnv :: env where
  "exampleEnv =
    \<lparr>fetch = (\<lambda>u. if u = ''hat.png'' then Some hatBitmap
                  else if u = ''far.png'' then Some (hatBitmap\<lparr>originClean := False\<rparr>)
                  else if u = ''data:blue'' then Some (hatBitmap\<lparr>pixels := [50, 150, 200, 255]\<rparr>)
                  else if u = ''data:grey'' then Some (hatBitmap\<lparr>pixels := [50, 50, 50, 255]\<rparr>)
                  else None),
     toDataURL = (\<lambda>w h d. if d = [50, 150, 200, 255] then ''data:blue''
                  else if d = [50, 50, 50, 255] then ''data:grey'' else ''data:other''),
     toStr = (\<lambda>t. case t of Null \<Rightarrow> ''null''
                  | Hue h \<Rightarrow> (if h = 200 then ''200'' else ''other'')
                  | Inherited k \<Rightarrow> ''function '' @ k)\<rparr>"

definition hat :: element where
  "hat = \<lparr>src = ''hat.png'', dataset_originalSrc = None, dataset_src = None,
     crossOrigin = None, style_filter = []\<rparr>"

definition exampleState :: state where
  "exampleState =
    \<lparr>elements = (\<lambda>i. if i = ''hat'' then Some hat
                     else if i = ''far'' then Some (hat\<lparr>src := ''far.png''\<rparr>) else None),
     cache = (\<lambda>k. None)\<rparr>"

text \<open>The page after \<open>hat\<close> was recolored to the hue 200.\<close>

definition recoloredHat :: state where
  "recoloredHat = putElement ''hat''
     (hat\<lparr>src := ''data:blue'', dataset_originalSrc := Some ''hat.png'',
          crossOrigin := Some ''anonymous''\<rparr>)
     (exampleState\<lparr>cache := (cache exampleState)(''hat|200'' \<mapsto> ''data:blue'')\<rparr>)"

section \<open>The transform over the reals\<close>

text \<open>
  The round trip through HSL is compared with the same computation over the reals. The
  function \<open>trap\<close> is the piecewise linear profile that \<^verbatim>\<open>hue2rgb\<close> follows, with the
  wrap of its argument into the unit interval; \<open>hue6\<close> is the hue of \<^verbatim>\<open>_rgbToHsl\<close> before
  the division by 6, without rounding; and \<open>eps\<close> bounds the rounding error of one
  operation whose result is at most 512 in absolute value.
\<close>

definition trap :: "real \<Rightarrow> real" where
  "trap t =
    (let w = (if t < 0 then t + 1 else if 1 < t then t - 1 else t)
     in if w < 1 / 6 then 6 * w else if w < 1 / 2 then 1
        else if w < 2 / 3 then 6 * (2 / 3 - w) else 0)"

definition eps :: real where "eps = 1 / 2 ^ 44"

definition hue6 :: "real \<Rightarrow> real \<Rightarrow> real \<Rightarrow> real" where
  "hue6 r g b =
    (let M = max r (max g b); m = min r (min g b); d = M - m
     in if M = r then (g - b) / d + (if g < b then 6 else 0)
        else if M = g then (b - r) / d + 2
        else (r - g) / d + 4)"

text \<open>
  The body of \<^verbatim>\<open>_rgbToHsl\<close> (lines 31 to 45) after its first line, as a function of the
  three channels already divided by 255.
\<close>

definition hslOfChannels :: "real \<Rightarrow> real \<Rightarrow> real \<Rightarrow> real \<times> real \<times> real" where
  "hslOfChannels r g b =
    (let mx = max r (max g b);
         mn = min r (min g b);
         l = fdiv (fadd mx mn) 2
     in if mx = mn then (fmul 0 360, 0, l)
        else
          let d = fsub mx mn;
              s = (if 1 / 2 < l then fdiv d (fsub (fsub 2 mx) mn) else fdiv d (fadd mx mn));
              h = (if mx = r then fadd (fdiv (fsub g b) d) (if g < b then 6 else 0)
                   else if mx = g then fadd (fdiv (fsub b r) d) 2
                   else fadd (fdiv (fsub r g) d) 4)
          in (fmul (fdiv h 6) 360, s, l))"

section \<open>Properties of the rounding\<close>

declare up2.simps [simp del] down2.simps [simp del]

lemma pow2_powi: "pow2 e = 2 powi e"
  by (simp add: pow2_def power_int_def power_one_over)

lemma pow2_pos: "0 < pow2 e"
  by (simp add: pow2_powi)

lemma pow2_add: "pow2 (a + b) = pow2 a * pow2 b"
  by (simp add: pow2_powi power_int_add)

lemma pow2_mono: "a \<le> b \<Longrightarrow> pow2 a \<le> pow2 b"
  by (simp add: pow2_powi power_int_increasing)

lemma pow2_less_iff: "pow2 a < pow2 b \<longleftrightarrow> a < b"
proof
  assume "pow2 a < pow2 b"
  then show "a < b" using pow2_mono[of b a] by (cases "a < b") auto
next
  assume "a < b"
  then show "pow2 a < pow2 b" by (simp add: pow2_powi power_int_strict_increasing)
qed

lemma pow2_nat: "pow2 (int n) = 2 ^ n"
  by (simp add: pow2_def)

lemma pow2_neg_nat: "pow2 (- int n) = 1 / 2 ^ n"
  by (simp add: pow2_powi power_int_def field_simps)

lemma up2_bounds: "1 \<le> x \<Longrightarrow> 2 ^ up2 x \<le> x \<and> x < 2 ^ Suc (up2 x)"
proof (induction x rule: up2.induct)
  case (1 x)
  show ?case
  proof (cases "x < 2")
    case True
    then show ?thesis using 1(2) by (simp add: up2.simps)
  next
    case False
    then have "1 \<le> x / 2" by simp
    with 1(1) False have "2 ^ up2 (x / 2) \<le> x / 2 \<and> x / 2 < 2 ^ Suc (up2 (x / 2))" by simp
    moreover have "up2 x = Suc (up2 (x / 2))" using False by (subst up2.simps) simp
    ultimately show ?thesis by simp
  qed
qed

lemma down2_bounds: "0 < x \<Longrightarrow> x < 1 \<Longrightarrow> 1 \<le> x * 2 ^ down2 x \<and> x * 2 ^ down2 x < 2 \<and> 0 < down2 x"
proof (induction x rule: down2.induct)
  case (1 x)
  have step: "down2 x = Suc (down2 (2 * x))" using 1(2,3) by (subst down2.simps) simp
  show ?case
  proof (cases "2 * x < 1")
    case True
    with 1 have "1 \<le> 2 * x * 2 ^ down2 (2 * x) \<and> 2 * x * 2 ^ down2 (2 * x) < 2" by simp
    then show ?thesis by (simp add: step mult_ac)
  next
    case False
    then have "down2 (2 * x) = 0" by (subst down2.simps) simp
    then show ?thesis using False 1(3) by (simp add: step)
  qed
qed

lemma ilog2_bounds:
  assumes "0 < x"
  shows "pow2 (ilog2 x) \<le> x" and "x < pow2 (ilog2 x + 1)"
proof -
  have "pow2 (ilog2 x) \<le> x \<and> x < pow2 (ilog2 x + 1)"
  proof (cases "1 \<le> x")
    case True
    then show ?thesis using up2_bounds[OF True]
      by (simp add: ilog2_def pow2_def nat_add_distrib)
  next
    case False
    then have x1: "x < 1" by simp
    from down2_bounds[OF assms x1] obtain n where n: "down2 x = Suc n"
      and b: "1 \<le> x * 2 ^ Suc n" "x * 2 ^ Suc n < 2"
      by (cases "down2 x") auto
    have "ilog2 x = - int (Suc n)" using False by (simp add: ilog2_def n)
    moreover have "pow2 (- int (Suc n)) \<le> x"
      unfolding pow2_neg_nat using b(1) by (simp add: field_simps)
    moreover have "x < pow2 (- int (Suc n) + 1)"
    proof -
      have e: "- int (Suc n) + 1 = - int n" by simp
      have "x < 1 / 2 ^ n" using b(2) by (simp add: field_simps)
      then show ?thesis by (simp only: e pow2_neg_nat)
    qed
    ultimately show ?thesis by simp
  qed
  then show "pow2 (ilog2 x) \<le> x" and "x < pow2 (ilog2 x + 1)" by simp_all
qed

lemma ilog2_le: "0 < x \<Longrightarrow> x \<le> pow2 k \<Longrightarrow> ilog2 x \<le> k"
proof -
  assume "0 < x" "x \<le> pow2 k"
  then have "pow2 (ilog2 x) < pow2 (k + 1)"
    using ilog2_bounds(1)[of x] pow2_less_iff[of k "k + 1"] by linarith
  then show ?thesis by (simp add: pow2_less_iff)
qed

lemma ilog2_less: "0 < x \<Longrightarrow> x < pow2 k \<Longrightarrow> ilog2 x < k"
proof -
  assume "0 < x" "x < pow2 k"
  then have "pow2 (ilog2 x) < pow2 k"
    using ilog2_bounds(1)[of x] by linarith
  then show ?thesis by (simp add: pow2_less_iff)
qed

lemma rne_cases: "rne y = \<lfloor>y\<rfloor> \<or> rne y = \<lfloor>y\<rfloor> + 1"
  by (simp add: rne_def Let_def)

lemma rne_error: "\<bar>of_int (rne y) - y\<bar> \<le> 1 / 2"
proof -
  have "of_int \<lfloor>y\<rfloor> \<le> y" "y < of_int \<lfloor>y\<rfloor> + 1" by linarith+
  then show ?thesis
    by (auto simp: rne_def Let_def abs_le_iff not_less)
qed

lemma rne_of_int [simp]: "rne (of_int n) = n"
  by (simp add: rne_def)

lemma rne_abs_le: "\<bar>y\<bar> \<le> of_int N \<Longrightarrow> \<bar>rne y\<bar> \<le> N"
proof -
  assume a: "\<bar>y\<bar> \<le> of_int N"
  have "of_int (rne y) \<le> y + 1 / 2" "y - 1 / 2 \<le> of_int (rne y)"
    using rne_error[of y] by linarith+
  then have "real_of_int (rne y) < of_int (N + 1)" "of_int (- N - 1) < real_of_int (rne y)"
    using a by simp_all
  then have "rne y < N + 1" "- N - 1 < rne y" by (simp_all only: of_int_less_iff)
  then show ?thesis by linarith
qed


lemma pow2_numeral: "pow2 (numeral n) = 2 ^ numeral n"
  by (simp add: pow2_def)

lemma pow2_plus_numeral: "pow2 (j + numeral n) = pow2 j * 2 ^ numeral n"
  by (simp only: pow2_add pow2_numeral)

lemma pow2_plus1: "pow2 (j + 1) = pow2 j * 2"
  by (simp only: pow2_add) (simp add: pow2_def)

lemma fl_0 [simp]: "fl 0 = 0"
  by (simp add: fl_def)


lemma fl_expo: "x \<noteq> 0 \<Longrightarrow> fl x = of_int (rne (x / pow2 (expo x - 52))) * pow2 (expo x - 52)"
  by (simp add: fl_def expo_def Let_def)

lemma pow2_half: "pow2 (e - 53) = pow2 (e - 52) / 2"
proof -
  have "pow2 (e - 52) = pow2 ((e - 53) + 1)" by simp
  also have "\<dots> = pow2 (e - 53) * pow2 1" by (rule pow2_add)
  finally show ?thesis by (simp add: pow2_def)
qed

lemma fl_error_expo: "\<bar>fl x - x\<bar> \<le> pow2 (expo x - 53)"
proof (cases "x = 0")
  case True
  then show ?thesis using pow2_pos[of "expo x - 53"] by simp
next
  case False
  define q where "q = pow2 (expo x - 52)"
  have q: "0 < q" by (simp add: q_def pow2_pos)
  have "fl x - x = (of_int (rne (x / q)) - x / q) * q"
    using q by (simp add: fl_expo[OF False] q_def[symmetric] field_simps)
  then have "\<bar>fl x - x\<bar> = \<bar>of_int (rne (x / q)) - x / q\<bar> * q"
    using q by (simp add: abs_mult)
  also have "\<dots> \<le> 1 / 2 * q"
    using rne_error[of "x / q"] q by (intro mult_right_mono) auto
  finally show ?thesis by (simp add: pow2_half q_def)
qed

lemma expo_le: "x \<noteq> 0 \<Longrightarrow> \<bar>x\<bar> \<le> pow2 k \<Longrightarrow> - 1022 \<le> k \<Longrightarrow> expo x \<le> k"
  using ilog2_le[of "\<bar>x\<bar>" k] by (simp add: expo_def)

lemma fl_error: "\<bar>x\<bar> \<le> pow2 k \<Longrightarrow> - 1022 \<le> k \<Longrightarrow> \<bar>fl x - x\<bar> \<le> pow2 (k - 53)"
proof -
  assume a: "\<bar>x\<bar> \<le> pow2 k" "- 1022 \<le> k"
  show ?thesis
  proof (cases "x = 0")
    case True
    then show ?thesis using pow2_pos[of "k - 53"] by simp
  next
    case False
    have "pow2 (expo x - 53) \<le> pow2 (k - 53)"
      using expo_le[OF False a] by (intro pow2_mono) simp
    then show ?thesis using fl_error_expo[of x] by linarith
  qed
qed

lemma fl_exact:
  assumes n: "\<bar>n\<bar> < 2 ^ 53" and j: "- 1074 \<le> j"
  shows "fl (of_int n * pow2 j) = of_int n * pow2 j"
proof (cases "n = 0")
  case True
  then show ?thesis by simp
next
  case False
  define x where "x = real_of_int n * pow2 j"
  have x0: "x \<noteq> 0" using False pow2_pos[of j] by (simp add: x_def)
  have "\<bar>x\<bar> = real_of_int \<bar>n\<bar> * pow2 j" using pow2_pos[of j] by (simp add: x_def abs_mult)
  also have "\<dots> < 2 ^ 53 * pow2 j"
  proof -
    have "real_of_int \<bar>n\<bar> < real_of_int (2 ^ 53)" using n by (simp only: of_int_less_iff)
    then show ?thesis using pow2_pos[of j] by simp
  qed
  also have "\<dots> = pow2 (j + 53)" by (simp add: pow2_plus_numeral)
  finally have "ilog2 \<bar>x\<bar> < j + 53" using x0 by (intro ilog2_less) auto
  then have e: "expo x \<le> j + 52" using j by (simp add: expo_def)
  define k where "k = nat (j + 52 - expo x)"
  define q where "q = pow2 (expo x - 52)"
  have q: "0 < q" by (simp add: q_def pow2_pos)
  have jk: "j = (expo x - 52) + int k" using e by (simp add: k_def)
  have pj: "pow2 j = q * 2 ^ k"
    unfolding q_def by (subst jk, subst pow2_add) (simp add: pow2_nat)
  have "x = of_int (n * 2 ^ k) * q" by (simp add: x_def pj)
  then have "x / q = of_int (n * 2 ^ k)" using q by simp
  then have "fl x = of_int (n * 2 ^ k) * q"
    by (simp add: fl_expo[OF x0] q_def[symmetric] del: of_int_mult of_int_power)
  also have "\<dots> = x" by (simp add: x_def pj)
  finally show ?thesis by (simp add: x_def)
qed

lemma fl_form: "\<exists>n j. fl x = of_int n * pow2 j \<and> \<bar>n\<bar> < 2 ^ 53 \<and> - 1074 \<le> j \<and> \<bar>n + n\<bar> < 2 ^ 54"
proof (cases "x = 0")
  case True
  have "fl x = of_int 0 * pow2 0" using True by simp
  then show ?thesis by (intro exI[of _ 0] exI[of _ "0::int"]) simp
next
  case False
  define q where "q = pow2 (expo x - 52)"
  define m where "m = rne (x / q)"
  have q: "0 < q" by (simp add: q_def pow2_pos)
  have flx: "fl x = of_int m * q" by (simp add: fl_expo[OF False] m_def q_def)
  have "\<bar>x\<bar> < pow2 (ilog2 \<bar>x\<bar> + 1)" using False by (intro ilog2_bounds) simp
  also have "\<dots> \<le> pow2 (expo x + 1)" by (intro pow2_mono) (simp add: expo_def)
  also have "\<dots> = 2 ^ 53 * q"
  proof -
    have "expo x + 1 = (expo x - 52) + 53" by simp
    then show ?thesis by (simp only: pow2_plus_numeral q_def mult.commute)
  qed
  finally have "\<bar>x / q\<bar> \<le> of_int (2 ^ 53)" using q by (simp add: field_simps abs_mult)
  then have m: "\<bar>m\<bar> \<le> 2 ^ 53" unfolding m_def by (rule rne_abs_le)
  have ej: "- 1074 \<le> expo x - 52" by (simp add: expo_def)
  show ?thesis
  proof (cases "\<bar>m\<bar> < 2 ^ 53")
    case True
    then show ?thesis using flx ej unfolding q_def
      by (intro exI[of _ m] exI[of _ "expo x - 52"]) simp
  next
    case False
    then have "m = 2 ^ 53 \<or> m = - (2 ^ 53)" using m by linarith
    moreover have "pow2 (expo x - 51) = 2 * q"
    proof -
      have "expo x - 51 = (expo x - 52) + 1" by simp
      then show ?thesis by (simp only: pow2_plus1 q_def mult.commute)
    qed
    ultimately have "fl x = of_int (m div 2) * pow2 (expo x - 51) \<and> \<bar>m div 2\<bar> < 2 ^ 53"
      using flx by auto
    then show ?thesis using ej
      by (intro exI[of _ "m div 2"] exI[of _ "expo x - 51"]) auto
  qed
qed

lemma fl_idem [simp]: "fl (fl x) = fl x"
proof -
  obtain n j where "fl x = of_int n * pow2 j" "\<bar>n\<bar> < 2 ^ 53" "- 1074 \<le> j"
    using fl_form[of x] by blast
  then show ?thesis by (simp add: fl_exact)
qed

lemma fl_double [simp]: "fl (2 * fl x) = 2 * fl x"
proof -
  obtain n j where f: "fl x = of_int n * pow2 j" "\<bar>n\<bar> < 2 ^ 53" "- 1074 \<le> j"
    using fl_form[of x] by blast
  have "2 * fl x = of_int n * pow2 (j + 1)" by (simp add: f(1) pow2_plus1)
  moreover have "fl (of_int n * pow2 (j + 1)) = of_int n * pow2 (j + 1)"
    using f by (intro fl_exact) auto
  ultimately show ?thesis by simp
qed

section \<open>The pixel loop is a pointwise map\<close>

declare recolorLoop.simps [simp del]

lemma bytesOf_pixelsOf: "length d mod 4 = 0 \<Longrightarrow> bytesOf (pixelsOf d) = d"
proof (induction d rule: pixelsOf.induct)
  case (1 r g b a rest)
  then show ?case by simp
qed (simp_all)

lemma length_bytesOf: "length (bytesOf ps) = 4 * length ps"
  by (induction ps rule: bytesOf.induct) simp_all

lemma pixelsOf_bytesOf: "pixelsOf (bytesOf ps) = ps"
  by (induction ps rule: bytesOf.induct) simp_all

lemma recolorLoop_done: "recolorLoop hue (length d) d = d"
  by (subst recolorLoop.simps) simp

lemma recolorLoop_step:
  "recolorLoop hue (length pre) (pre @ r # g # b # a # post) =
   recolorLoop hue (length pre + 4) (pre @ bytesOf [recolorPixelSpec hue (r, g, b, a)] @ post)"
  by (subst recolorLoop.simps)
    (simp add: rd_def nth_append list_update_append recolorPixelSpec_def Let_def
      eval_nat_numeral split: prod.splits)

lemma recolorLoop_pixels:
  "recolorLoop hue (length pre) (pre @ bytesOf ps) = pre @ bytesOf (map (recolorPixelSpec hue) ps)"
proof (induction ps arbitrary: pre)
  case Nil
  then show ?case by (simp add: recolorLoop_done)
next
  case (Cons p ps)
  obtain r g b a where p: "p = (r, g, b, a)" by (cases p) auto
  obtain r' g' b' a' where p': "recolorPixelSpec hue (r, g, b, a) = (r', g', b', a')"
    by (cases "recolorPixelSpec hue (r, g, b, a)") auto
  have e: "length (pre @ [r', g', b', a']) = length pre + 4" by simp
  have "recolorLoop hue (length pre) (pre @ bytesOf (p # ps)) =
        recolorLoop hue (length pre + 4) (pre @ [r', g', b', a'] @ bytesOf ps)"
    using recolorLoop_step[of hue pre r g b a "bytesOf ps"] by (simp add: p p')
  also have "\<dots> =
        recolorLoop hue (length (pre @ [r', g', b', a'])) ((pre @ [r', g', b', a']) @ bytesOf ps)"
    unfolding e by simp
  also have "\<dots> = (pre @ [r', g', b', a']) @ bytesOf (map (recolorPixelSpec hue) ps)"
    by (rule Cons.IH)
  finally show ?case by (simp add: p p')
qed

lemma recolorLoop_map:
  assumes "length d mod 4 = 0"
  shows "recolorLoop hue 0 d = bytesOf (map (recolorPixelSpec hue) (pixelsOf d))"
  using recolorLoop_pixels[of hue "[]" "pixelsOf d"] bytesOf_pixelsOf[OF assms] by simp

lemma recolorPixelSpec_alpha: "snd (snd (snd (recolorPixelSpec hue (r, g, b, a)))) = a"
  by (simp add: recolorPixelSpec_def Let_def split: prod.splits)

section \<open>Achromatic pixels\<close>

lemmas fl_ev = fl_def ilog2_def Let_def pow2_def rne_def fdiv_def fadd_def fsub_def fmul_def
  js_round_def up2.simps down2.simps

lemma fl_1 [simp]: "fl 1 = 1"
  using fl_exact[of 1 0] by (simp add: pow2_def)

lemma toUint8Clamp_uint [simp]: "toUint8Clamp (uint (v :: byte)) = v"
  using uint_lt2p[of v] by (simp add: toUint8Clamp_def)

lemma channel_roundtrip:
  assumes "n \<le> 255"
  shows "js_round (fmul (fdiv (of_nat n) 255) 255) = int n"
proof -
  define x where "x = fl (real n / 255)"
  have p53: "pow2 (0 - 53) = 1 / 9007199254740992" and p45: "pow2 (8 - 53) = 1 / 35184372088832"
    and p8: "pow2 8 = 256" and p0: "pow2 0 = 1"
    by (simp_all add: pow2_def)
  have n: "0 \<le> real n" "real n \<le> 255" using assms by simp_all
  have "\<bar>real n / 255\<bar> \<le> pow2 0" unfolding p0 using n by simp
  then have "\<bar>x - real n / 255\<bar> \<le> pow2 (0 - 53)" unfolding x_def by (rule fl_error) simp
  then have x: "\<bar>x - real n / 255\<bar> \<le> 1 / 9007199254740992" by (simp only: p53)
  have "\<bar>x * 255\<bar> \<le> pow2 8" unfolding p8 using x n by linarith
  then have "\<bar>fl (x * 255) - x * 255\<bar> \<le> pow2 (8 - 53)" by (rule fl_error) simp
  then have y: "\<bar>fl (x * 255) - x * 255\<bar> \<le> 1 / 35184372088832" by (simp only: p45)
  have "real_of_int (int n) \<le> fl (x * 255) + 1 / 2" "fl (x * 255) + 1 / 2 < real_of_int (int n) + 1"
    using x y by linarith+
  then have "\<lfloor>fl (x * 255) + 1 / 2\<rfloor> = int n"
    by (rule floor_unique)
  then show ?thesis by (simp add: js_round_def fmul_def fdiv_def x_def)
qed

lemma rgbToHsl_gray: "rgbToHsl v v v = (0, 0, fdiv (of_nat (unat v)) 255)"
  by (simp add: rgbToHsl_def Let_def fadd_def fdiv_def fmul_def)

lemma hue2rgb_gray: "hue2rgb (fl y) (fl y) t = fl y"
  by (simp add: hue2rgb_def Let_def fadd_def fsub_def fmul_def)

lemma hslToRgb_gray:
  "hslToRgb h0 0 (fl y) =
    (js_round (fmul (fl y) 255), js_round (fmul (fl y) 255), js_round (fmul (fl y) 255))"
proof -
  have q: "(if fl y < 1 / 2 then fmul (fl y) (fadd 1 0) else fsub (fadd (fl y) 0) (fmul (fl y) 0))
      = fl y"
    by (simp add: fadd_def fsub_def fmul_def)
  have p: "fsub (fmul 2 (fl y)) (fl y) = fl y"
    by (simp add: fsub_def fmul_def)
  show ?thesis
    unfolding hslToRgb_def q Let_def p hue2rgb_gray by (simp split: option.split)
qed

lemma recolor_gray:
  "hslToRgb h0 0 (fdiv (of_nat (unat (v :: byte))) 255) = (uint v, uint v, uint v)"
proof -
  have "unat v \<le> 255" using unsigned_less[of v, where 'a = nat] by simp
  then have "js_round (fmul (fdiv (of_nat (unat v)) 255) 255) = int (unat v)"
    by (rule channel_roundtrip)
  then show ?thesis unfolding fdiv_def hslToRgb_gray by simp
qed

lemma recolorPixelSpec_gray: "recolorPixelSpec hue (v, v, v, a) = (v, v, v, a)"
  unfolding recolorPixelSpec_def rgbToHsl_gray Let_def prod.case recolor_gray by simp

section \<open>Concrete pixels\<close>

lemmas px_ev = recolorPixelSpec_def rgbToHsl_def hslToRgb_def hue2rgb_def toUint8Clamp_def fl_ev

lemma recolorLoop_bytesOf:
  "recolorLoop hue 0 (bytesOf ps) = bytesOf (map (recolorPixelSpec hue) ps)"
  using recolorLoop_pixels[of hue "[]" ps] by simp

lemma recolorPixelSpec_unfold:
  "recolorPixelSpec hue (r, g, b, a) =
    (if a = 0 then (r, g, b, a)
     else if snd (snd (rgbToHsl r g b)) < fl (3 / 100)
             \<or> fl (97 / 100) < snd (snd (rgbToHsl r g b)) then (r, g, b, a)
     else (toUint8Clamp (fst (hslToRgb hue (fst (snd (rgbToHsl r g b))) (snd (snd (rgbToHsl r g b))))),
           toUint8Clamp (fst (snd (hslToRgb hue (fst (snd (rgbToHsl r g b))) (snd (snd (rgbToHsl r g b)))))),
           toUint8Clamp (snd (snd (hslToRgb hue (fst (snd (rgbToHsl r g b))) (snd (snd (rgbToHsl r g b)))))),
           a))"
  by (simp add: recolorPixelSpec_def Let_def split: prod.splits)

lemma hslToRgb_red_120: "hslToRgb (Some 120) 1 (1 / 2) = (0, 255, 0)"
  by (simp add: hslToRgb_def hue2rgb_def fl_ev cong: let_weak_cong)

lemma px_orange_200: "recolorPixelSpec (Some 200) (200, 100, 50, 255) = (50, 150, 200, 255)"
  by (simp add: px_ev cong: let_weak_cong)

lemma px_transparent: "recolorPixelSpec hue (1, 2, 3, 0) = (1, 2, 3, 0)"
  by (simp add: recolorPixelSpec_def)

lemma px_dull_200: "recolorPixelSpec (Some 200) (128, 127, 127, 9) = (127, 128, 128, 9)"
  by (simp add: px_ev cong: let_weak_cong)

lemma hsl_dull: "rgbToHsl 128 127 127 = (0, 1103823438081 / 281474976710656, 1 / 2)"
  by (simp add: rgbToHsl_def fl_ev cong: let_weak_cong)

lemma px_dull_1: "recolorPixelSpec (Some 1) (128, 127, 127, 255) = (128, 127, 127, 255)"
  by (simp add: px_ev cong: let_weak_cong)

lemma hsl_red: "rgbToHsl 255 0 0 = (0, 1, 1 / 2)"
  by (simp add: rgbToHsl_def fl_ev cong: let_weak_cong)

lemma px_red_120: "recolorPixelSpec (Some 120) (255, 0, 0, 255) = (0, 255, 0, 255)"
  by (simp add: px_ev cong: let_weak_cong)

lemma hsl_dark: "snd (snd (rgbToHsl 2 2 2)) < fl (3 / 100)"
  by (simp add: rgbToHsl_def fl_ev cong: let_weak_cong)

lemma hsl_light: "fl (97 / 100) < snd (snd (rgbToHsl 254 250 252))"
  by (simp add: rgbToHsl_def fl_ev cong: let_weak_cong)

section \<open>The claims about the pixel transform\<close>

text \<open>
  C2. On every buffer of whole pixels the loop of lines 118 to 129 computes the pointwise
  reference definition: the result is the buffer of the pixels
  \<open>recolorPixelSpec hue px\<close>, \<open>px\<close> running through the pixels of the input in order. A
  pixel of alpha 0 is returned as it is; a pixel whose lightness is below 0.03 or above
  0.97 is returned as it is; any other pixel gets the three channels of
  \<open>hslToRgb hue sat light\<close>, with the saturation and the lightness that \<open>rgbToHsl\<close>
  computed from its old channels. The buffer keeps its length, the alpha channel of every
  pixel is the old one, and the pixel at position \<open>k\<close> of the result depends on the pixel
  at position \<open>k\<close> of the input only.
\<close>

theorem recolor_loop_is_pointwise:
  assumes "length d mod 4 = 0"
  shows "recolorLoop hue 0 d = bytesOf (map (recolorPixelSpec hue) (pixelsOf d))
    \<and> length (recolorLoop hue 0 d) = length d
    \<and> (\<forall>k < length (pixelsOf d).
          pixelsOf (recolorLoop hue 0 d) ! k = recolorPixelSpec hue (pixelsOf d ! k)
          \<and> snd (snd (snd (pixelsOf (recolorLoop hue 0 d) ! k))) = snd (snd (snd (pixelsOf d ! k))))
    \<and> (\<forall>r g b a. recolorPixelSpec hue (r, g, b, a) =
          (if a = 0 then (r, g, b, a)
           else if snd (snd (rgbToHsl r g b)) < fl (3 / 100)
                   \<or> fl (97 / 100) < snd (snd (rgbToHsl r g b)) then (r, g, b, a)
           else (toUint8Clamp (fst (hslToRgb hue (fst (snd (rgbToHsl r g b))) (snd (snd (rgbToHsl r g b))))),
                 toUint8Clamp (fst (snd (hslToRgb hue (fst (snd (rgbToHsl r g b))) (snd (snd (rgbToHsl r g b)))))),
                 toUint8Clamp (snd (snd (hslToRgb hue (fst (snd (rgbToHsl r g b))) (snd (snd (rgbToHsl r g b)))))),
                 a)))"
proof -
  let ?f = "recolorPixelSpec hue"
  have eq: "recolorLoop hue 0 d = bytesOf (map ?f (pixelsOf d))"
    using assms by (rule recolorLoop_map)
  have len: "length (recolorLoop hue 0 d) = length d"
    using bytesOf_pixelsOf[OF assms] length_bytesOf[of "pixelsOf d"]
    by (simp add: eq length_bytesOf)
  have px: "pixelsOf (recolorLoop hue 0 d) = map ?f (pixelsOf d)"
    by (simp add: eq pixelsOf_bytesOf)
  have alpha: "snd (snd (snd (?f p))) = snd (snd (snd p))" for p
    by (cases p) (simp add: recolorPixelSpec_alpha)
  note unfold = recolorPixelSpec_unfold[of hue]
  have nth: "\<forall>k < length (pixelsOf d).
          pixelsOf (recolorLoop hue 0 d) ! k = ?f (pixelsOf d ! k)
          \<and> snd (snd (snd (pixelsOf (recolorLoop hue 0 d) ! k))) = snd (snd (snd (pixelsOf d ! k)))"
    by (simp add: px alpha)
  show ?thesis using eq len nth unfold by blast
qed

theorem recolor_loop_is_pointwise_witness:
  "length [200, 100, 50, 255, 1, 2, 3, 0, 128, 127, 127, 9 :: byte] mod 4 = 0
   \<and> recolorLoop (Some 200) 0 [200, 100, 50, 255, 1, 2, 3, 0, 128, 127, 127, 9]
       = [50, 150, 200, 255, 1, 2, 3, 0, 127, 128, 128, 9]"
  using recolor_loop_is_pointwise[of "[200, 100, 50, 255, 1, 2, 3, 0, 128, 127, 127, 9]" "Some 200"]
  by (simp add: px_orange_200 px_transparent px_dull_200)

text \<open>
  C10. A pixel with three equal channels is never tinted. \<open>rgbToHsl\<close> gives it the
  saturation 0 and the hue 0; with the saturation 0, \<open>hslToRgb\<close> returns its old channel
  value three times for every target hue, a number or \<open>NaN\<close>; so the recolor loop leaves
  the pixel as it is, wherever it stands in the buffer, whatever its alpha and its
  lightness are, inside the band from 0.03 to 0.97 in particular.
\<close>

theorem gray_pixel_unchanged:
  "fst (rgbToHsl v v v) = 0
   \<and> fst (snd (rgbToHsl v v v)) = 0
   \<and> hslToRgb hue (fst (snd (rgbToHsl v v v))) (snd (snd (rgbToHsl v v v))) = (uint v, uint v, uint v)
   \<and> recolorLoop hue 0 (bytesOf (ps @ (v, v, v, a) # qs))
       = bytesOf (map (recolorPixelSpec hue) ps @ (v, v, v, a) # map (recolorPixelSpec hue) qs)"
  unfolding rgbToHsl_gray fst_conv snd_conv recolor_gray recolorLoop_bytesOf
  by (simp add: recolorPixelSpec_gray)

section \<open>The recolor operation on the page\<close>

lemma ensureOriginalSrc_truthy [simp]:
  "truthy (dataset_originalSrc el) \<Longrightarrow> ensureOriginalSrc el = el"
  by (simp add: ensureOriginalSrc_def)

lemma ensureOriginalSrc_falsy:
  "\<not> truthy (dataset_originalSrc el) \<Longrightarrow>
    ensureOriginalSrc el = el\<lparr>dataset_originalSrc := Some (currentSource el)\<rparr>"
  by (simp add: ensureOriginalSrc_def)


lemma elements_putElement [simp]:
  "elements (putElement itemId el s) j = (if j = itemId then Some el else elements s j)"
  by (simp add: putElement_def)

lemma cache_putElement [simp]: "cache (putElement itemId el s) = cache s"
  by (simp add: putElement_def)

lemma putElement_twice [simp]:
  "putElement itemId el (putElement itemId el' s) = putElement itemId el s"
  by (simp add: putElement_def)

text \<open>
  C9. \<^verbatim>\<open>reset\<close> is idempotent: a second \<^verbatim>\<open>reset\<close> of the same element, run on the
  state the first one left, ends the same way and leaves that state as it is: the
  source, the filter style and every other field of the element, every other element
  and the cache.
\<close>

theorem reset_idempotent: "reset e itemId (snd (reset e itemId s)) = reset e itemId s"
proof (cases "elements s itemId")
  case None
  then show ?thesis by (simp add: reset_def setHueInternal_def)
next
  case (Some el)
  show ?thesis
  proof (cases "truthy (dataset_originalSrc el)")
    case True
    then show ?thesis using Some
      by (simp add: reset_def setHueInternal_def Let_def)
  next
    case False
    then show ?thesis using Some
      by (cases "currentSource el = []")
        (auto simp: reset_def setHueInternal_def Let_def ensureOriginalSrc_falsy truthy_def
          currentSource_def split: if_splits option.splits)
  qed
qed

lemma ready_src: "ready e el = Some bm \<Longrightarrow> src el \<noteq> [] \<and> fetch e (src el) = Some bm \<and> naturalWidth bm \<noteq> 0"
  by (auto simp: ready_def split: if_splits option.splits)


lemma fallback_path:
  assumes "elements s itemId = Some el" and "setHueInternal e itemId t s = (Returned Fallback, s')"
  shows "cache s' = cache s
    \<and> (\<exists>el'. elements s' itemId = Some el' \<and> style_filter el' = fallbackFilter e t
          \<and> src el' = currentSource el)"
  using assms
  by (auto simp: setHueInternal_def Let_def currentSource_def ensureOriginalSrc_def
      dest!: ready_src split: option.splits if_splits)

lemma tainted_canvas_throws:
  assumes "elements s itemId = Some el" and "t \<noteq> Null" and "src el \<noteq> []"
    and "fetch e (src el) = Some bm" and "naturalWidth bm \<noteq> 0"
    and "cache s (cacheKey e itemId t) = None"
    and "drawable bm" and "\<not> originClean bm"
  shows "fst (setHueInternal e itemId t s) = Threw SecurityError"
  using assms by (simp add: setHueInternal_def Let_def ready_def)

lemmas ex_defs = exampleEnv_def exampleState_def hat_def hatBitmap_def

lemma clampHue_200: "clampHue (Finite 200) = 200"
  by (simp add: js_rem_def)

declare clampHue.simps [simp del]

lemma loop_blue: "recolorLoop (Some 200) 0 [200, 100, 50, 255] = [50, 150, 200, 255]"
  using recolorLoop_bytesOf[of "Some 200" "[(200, 100, 50, 255)]"] by (simp add: px_orange_200)

lemma px_orange_nan: "recolorPixelSpec None (200, 100, 50, 255) = (50, 50, 50, 255)"
  by (simp add: px_ev cong: let_weak_cong)

lemma loop_grey: "recolorLoop None 0 [200, 100, 50, 255] = [50, 50, 50, 255]"
  using recolorLoop_bytesOf[of None "[(200, 100, 50, 255)]"] by (simp add: px_orange_nan)

lemma first_call: "setHue exampleEnv ''hat'' (Finite 200) exampleState = (Returned Recolored, recoloredHat)"
  by (simp add: setHue_def clampHue_200 setHueInternal_def ready_def cacheKey_def truthy_def
      ensureOriginalSrc_def currentSource_def loop_blue ex_defs recoloredHat_def Let_def
      cong: let_weak_cong)

lemma second_call: "setHue exampleEnv ''hat'' (Finite 200) recoloredHat = (Returned CacheHit, recoloredHat)"
  by (simp add: setHue_def clampHue_200 setHueInternal_def ready_def cacheKey_def truthy_def
      ensureOriginalSrc_def currentSource_def ex_defs recoloredHat_def putElement_def fun_upd_idem
      cong: let_weak_cong)

lemma tainted_call:
  "fst (setHue exampleEnv ''far'' (Finite 200) exampleState) = Threw SecurityError"
  by (simp add: setHue_def clampHue_200 setHueInternal_def ready_def cacheKey_def truthy_def
      ensureOriginalSrc_def currentSource_def ex_defs
      cong: let_weak_cong)

lemma lookup_toString: "lookupNamed ''toString'' = Some (Inherited ''toString'')"
  by (simp add: lookupNamed_def NAMED_HUES_def objectPrototypeKeys_def)

lemma set_toString:
  "set_named exampleEnv ''hat'' ''toString'' exampleState =
    (Returned Recolored,
     putElement ''hat''
       (hat\<lparr>src := ''data:grey'', dataset_originalSrc := Some ''hat.png'',
            crossOrigin := Some ''anonymous''\<rparr>)
       (exampleState\<lparr>cache := (cache exampleState)(''hat|function toString'' \<mapsto> ''data:grey'')\<rparr>))"
  by (simp add: set_named_def lookup_toString setHueInternal_def ready_def cacheKey_def truthy_def
      ensureOriginalSrc_def currentSource_def loop_grey ex_defs Let_def
      cong: let_weak_cong)

lemma reset_hat:
  "reset exampleEnv ''hat'' exampleState =
    (Returned ResetDone, putElement ''hat'' (hat\<lparr>dataset_originalSrc := Some ''hat.png''\<rparr>) exampleState)"
  by (simp add: reset_def setHueInternal_def truthy_def
      ensureOriginalSrc_def currentSource_def ex_defs
      cong: let_weak_cong)

lemma clampHue_edge: "clampHue (Finite (- (1 / 2 ^ 70))) = 360"
  by (simp add: clampHue.simps js_rem_def fl_ev cong: let_weak_cong)

lemma clampHue_370: "clampHue (Finite 370) = 10" "clampHue (Finite 10) = 10"
  "clampHue (Finite (- 10)) = 350" "clampHue (Finite 350) = 350"
  by (simp_all add: clampHue.simps js_rem_def fl_ev cong: let_weak_cong)

lemma set_named_Green: "set_named e i ''Green'' s = setHue e i (Finite 120) s"
  by (simp add: set_named_def setHue_def lookupNamed_def NAMED_HUES_def clampHue.simps js_rem_def)

lemma set_named_unknown:
  "name \<notin> fst ` set NAMED_HUES \<Longrightarrow> name \<notin> set objectPrototypeKeys \<Longrightarrow>
    set_named e i name s = reset e i s"
  by (simp add: set_named_def reset_def lookupNamed_def map_of_eq_None_iff[THEN iffD2])

lemma set_named_NotAColor: "set_named e i ''NotAColor'' s = reset e i s"
  by (rule set_named_unknown) (simp_all add: NAMED_HUES_def objectPrototypeKeys_def)

lemma set_named_falsy: "set_named e i [] s = reset e i s"
  by (simp add: set_named_def reset_def)

lemma set_named_Original: "set_named e i ''Original'' s = reset e i s"
  by (simp add: set_named_def reset_def lookupNamed_def NAMED_HUES_def)

lemmas hex_ev = parseHex_def trim_def isSpace_def hexVal_def hexByte_def

lemma parseHex_f00: "parseHex [0x23, 0x66, 0x30, 0x30] = Some (255, 0, 0)"
  by (simp add: hex_ev)

lemma parseHex_spaces: "parseHex [0xA0, 0x20, 0x46, 0x30, 0x30, 0x3000, 0x0A] = Some (255, 0, 0)"
  by (simp add: hex_ev)

lemma parseHex_six: "parseHex [0x63, 0x38, 0x36, 0x34, 0x33, 0x32] = Some (200, 100, 50)"
  by (simp add: hex_ev)

lemma setHex_f00: "setHex e i [0x23, 0x66, 0x30, 0x30] s = setHue e i (Finite 0) s"
  by (simp add: setHex_def setHue_def parseHex_f00 hsl_red clampHue.simps js_rem_def)

lemma parseHex_zzz: "parseHex [0x7A, 0x7A, 0x7A] = None"
  by (simp add: hex_ev)

lemma parseHex_empty: "parseHex [] = None"
  by (simp add: hex_ev)

lemma setHex_malformed: "parseHex hex = None \<Longrightarrow> setHex e i hex s = reset e i s"
  by (simp add: setHex_def reset_def)

section \<open>The claims about the operation and its entry points\<close>


text \<open>
  C3. The picture of \<open>far\<close> taints the canvas. \<^verbatim>\<open>drawImage\<close> succeeds, so the
  \<^verbatim>\<open>catch\<close> of line 109 is not entered; \<^verbatim>\<open>getImageData\<close> of line 115, outside the
  \<^verbatim>\<open>try\<close>, throws the \<^verbatim>\<open>SecurityError\<close>, and the call ends with it: the filter
  style of the element is still empty and the cache is still empty.
\<close>

theorem tainted_canvas_error_escapes:
  "fst (setHue exampleEnv ''far'' (Finite 200) exampleState) = Threw SecurityError
   \<and> style_filter (the (elements (snd (setHue exampleEnv ''far'' (Finite 200) exampleState)) ''far'')) = []
   \<and> cache (snd (setHue exampleEnv ''far'' (Finite 200) exampleState)) = cache exampleState"
  by (simp add: setHue_def clampHue_200 setHueInternal_def ready_def cacheKey_def truthy_def
      ensureOriginalSrc_def currentSource_def ex_defs Let_def
      cong: let_weak_cong)

text \<open>
  C5. \<^verbatim>\<open>_clampHue\<close> maps 370 and 10 to the same hue, -10 and 350 to the same hue, and
  what is not finite to 0. It maps the double \<open>-2\<^sup>-\<^sup>7\<^sup>0\<close> to 360: the remainder is the
  number itself, it is negative, and the sum with 360 rounds to 360, which is not below
  360.
\<close>

theorem clampHue_reaches_360:
  "clampHue (Finite (- (1 / 2 ^ 70))) = 360
   \<and> \<not> clampHue (Finite (- (1 / 2 ^ 70))) < 360
   \<and> clampHue (Finite 370) = clampHue (Finite 10)
   \<and> clampHue (Finite (- 10)) = clampHue (Finite 350)
   \<and> clampHue NaN = 0 \<and> clampHue PosInfinity = 0 \<and> clampHue NegInfinity = 0"
  unfolding clampHue_edge clampHue_370 by (simp add: clampHue.simps(2-))

text \<open>
  C6. The name \<open>toString\<close> is not a name of the table, but \<^verbatim>\<open>'toString' in NAMED_HUES\<close>
  is true, and \<^verbatim>\<open>NAMED_HUES['toString']\<close> is a function: \<^verbatim>\<open>set\<close> runs the pixel loop
  with a hue that is \<^verbatim>\<open>NaN\<close>, where \<^verbatim>\<open>reset\<close> restores the original.
\<close>

theorem set_named_inherited_key_recolors:
  "fst (set_named exampleEnv ''hat'' ''toString'' exampleState) = Returned Recolored
   \<and> src (the (elements (snd (set_named exampleEnv ''hat'' ''toString'' exampleState)) ''hat''))
       = ''data:grey''
   \<and> fst (reset exampleEnv ''hat'' exampleState) = Returned ResetDone
   \<and> src (the (elements (snd (reset exampleEnv ''hat'' exampleState)) ''hat'')) = ''hat.png''"
  by (simp add: set_toString reset_hat hat_def)

section \<open>The round trip through HSL\<close>

text \<open>
  The round trip of a pixel that is not grey is followed operation by operation. Each
  intermediate double stays within a multiple of \<open>eps\<close> of the value that the same
  expression has over the reals (\<open>near_add\<close> to \<open>near_div\<close>); over the reals the three
  calls of \<^verbatim>\<open>hue2rgb\<close> return the channels the pixel had (\<open>exact_channels\<close>); the
  branches taken over the doubles are those taken over the reals, because two channels
  that differ are at least 1/255 apart and the lightness is either 1/2 or at least 1/510
  away from it. The product with 255 is then within 1/2 of the byte and rounds to it.
\<close>

lemma trap_branch:
  fixes t t' t1 t2 a1 a2 c1 c2 \<delta> :: real
  assumes "\<bar>t' - t\<bar> \<le> \<delta>" "\<delta> \<le> 1 / 100"
    and "- 1 / 2 \<le> t" "t \<le> 3 / 2"
    and "t1 = (if t' < 0 then a1 else t')" "\<bar>a1 - (t' + 1)\<bar> \<le> \<delta>"
    and "t2 = (if 1 < t1 then a2 else t1)" "\<bar>a2 - (t1 - 1)\<bar> \<le> \<delta>"
    and "\<bar>c1 - 1 / 6\<bar> \<le> \<delta>" "\<bar>c2 - 2 / 3\<bar> \<le> \<delta>"
  shows "\<bar>(if t2 < c1 then 6 * t2 else if t2 < 1 / 2 then 1
          else if t2 < c2 then 6 * (c2 - t2) else 0) - trap t\<bar> \<le> 30 * \<delta>"
  using assms unfolding trap_def Let_def
  by (auto simp: abs_le_iff split: if_splits)

lemma eps_pos: "0 < eps" by (simp add: eps_def)
lemma eps_small: "eps \<le> 1 / 10000000000000" by (simp add: eps_def)

lemma fl_near: "\<bar>y\<bar> \<le> 512 \<Longrightarrow> \<bar>fl y - y\<bar> \<le> eps"
  using fl_error[of y 9] by (simp add: pow2_def eps_def)

lemma near_add:
  assumes "\<bar>x' - x\<bar> \<le> e1" "\<bar>y' - y\<bar> \<le> e2" "\<bar>x' + y'\<bar> \<le> 512"
  shows "\<bar>fadd x' y' - (x + y)\<bar> \<le> e1 + e2 + eps"
  using fl_near[OF assms(3)] assms(1,2) unfolding fadd_def by linarith

lemma near_sub:
  assumes "\<bar>x' - x\<bar> \<le> e1" "\<bar>y' - y\<bar> \<le> e2" "\<bar>x' - y'\<bar> \<le> 512"
  shows "\<bar>fsub x' y' - (x - y)\<bar> \<le> e1 + e2 + eps"
  using fl_near[OF assms(3)] assms(1,2) unfolding fsub_def by linarith

lemma near_mul_exact:
  fixes x x' y y' :: real
  assumes "\<bar>x' - x\<bar> \<le> e1" "\<bar>y' - y\<bar> \<le> e2" "\<bar>x\<bar> \<le> X" "\<bar>y'\<bar> \<le> Y"
  shows "\<bar>x' * y' - x * y\<bar> \<le> e1 * Y + X * e2"
proof -
  have "x' * y' - x * y = (x' - x) * y' + x * (y' - y)" by (simp add: algebra_simps)
  then have "\<bar>x' * y' - x * y\<bar> \<le> \<bar>x' - x\<bar> * \<bar>y'\<bar> + \<bar>x\<bar> * \<bar>y' - y\<bar>"
    by (simp add: abs_mult[symmetric]) 
  also have "\<dots> \<le> e1 * Y + X * e2"
    using assms by (intro add_mono mult_mono) (auto intro: order_trans[OF abs_ge_zero])
  finally show ?thesis .
qed

lemma near_mul:
  assumes "\<bar>x' - x\<bar> \<le> e1" "\<bar>y' - y\<bar> \<le> e2" "\<bar>x\<bar> \<le> X" "\<bar>y'\<bar> \<le> Y" "\<bar>x' * y'\<bar> \<le> 512"
  shows "\<bar>fmul x' y' - x * y\<bar> \<le> e1 * Y + X * e2 + eps"
  using near_mul_exact[OF assms(1-4)] fl_near[OF assms(5)] unfolding fmul_def by linarith

lemma near_div_exact:
  fixes x x' y y' :: real
  assumes "\<bar>x' - x\<bar> \<le> e1" "\<bar>y' - y\<bar> \<le> e2" "0 < c" "c \<le> y" "c \<le> y'" "\<bar>x\<bar> \<le> X * y"
  shows "\<bar>x' / y' - x / y\<bar> \<le> (e1 + X * e2) / c"
proof -
  have y: "0 < y" "0 < y'" using assms by linarith+
  have X: "0 \<le> X"
  proof (rule ccontr)
    assume "\<not> 0 \<le> X"
    then have "X * y < 0" using y by (simp add: mult_neg_pos)
    then show False using assms(6) by linarith
  qed
  have e: "0 \<le> e1" "0 \<le> e2" using assms(1,2) by linarith+
  have "x' / y' - x / y = ((x' - x) + (x / y) * (y - y')) / y'"
    using y by (simp add: field_simps)
  moreover have "\<bar>x / y\<bar> \<le> X" using assms(6) y by (simp add: field_simps abs_mult)
  then have "\<bar>(x / y) * (y - y')\<bar> \<le> X * e2"
    unfolding abs_mult using assms(2) X by (intro mult_mono) auto
  then have "\<bar>(x' - x) + (x / y) * (y - y')\<bar> \<le> e1 + X * e2"
    using assms(1) by linarith
  ultimately have "\<bar>x' / y' - x / y\<bar> \<le> (e1 + X * e2) / y'"
    using y by (simp add: divide_right_mono)
  also have "\<dots> \<le> (e1 + X * e2) / c"
    using assms(3,5) e X by (intro divide_left_mono) (auto intro!: add_nonneg_nonneg mult_nonneg_nonneg mult_pos_pos)
  finally show ?thesis .
qed

lemma near_div:
  assumes "\<bar>x' - x\<bar> \<le> e1" "\<bar>y' - y\<bar> \<le> e2" "0 < c" "c \<le> y" "c \<le> y'" "\<bar>x\<bar> \<le> X * y"
    "\<bar>x' / y'\<bar> \<le> 512"
  shows "\<bar>fdiv x' y' - x / y\<bar> \<le> (e1 + X * e2) / c + eps"
  using near_div_exact[OF assms(1-6)] fl_near[OF assms(7)] unfolding fdiv_def by linarith

lemma fdiv_const_near: "\<bar>x / y\<bar> \<le> 512 \<Longrightarrow> \<bar>fdiv x y - x / y\<bar> \<le> eps"
  unfolding fdiv_def by (rule fl_near)

lemma hue2rgb_near:
  fixes p' q' t' m d t :: real
  assumes p: "\<bar>p' - m\<bar> \<le> 3620 * eps" and q: "\<bar>q' - (m + d)\<bar> \<le> 3612 * eps"
    and m: "0 \<le> m" and d: "0 \<le> d" "m + d \<le> 1"
    and t: "\<bar>t' - t\<bar> \<le> 262 * eps" "- 1 / 2 \<le> t" "t \<le> 3 / 2"
  shows "\<bar>hue2rgb p' q' t' - (m + d * trap t)\<bar> \<le> 210000 * eps"
proof -
  note e = eps_pos eps_small
  define c1 where "c1 = fdiv 1 6"
  define c2 where "c2 = fdiv 2 3"
  define a1 where "a1 = fadd t' 1"
  define t1 where "t1 = (if t' < 0 then a1 else t')"
  define a2 where "a2 = fsub t1 1"
  define t2 where "t2 = (if 1 < t1 then a2 else t1)"
  define \<psi> where "\<psi> = (if t2 < c1 then 6 * t2 else if t2 < 1 / 2 then 1
          else if t2 < c2 then 6 * (c2 - t2) else 0)"
  have c1: "\<bar>c1 - 1 / 6\<bar> \<le> eps" unfolding c1_def by (rule fdiv_const_near) simp
  have c2: "\<bar>c2 - 2 / 3\<bar> \<le> eps" unfolding c2_def by (rule fdiv_const_near) simp
  have t'b: "\<bar>t'\<bar> \<le> 2" using t e by linarith
  have a1: "\<bar>a1 - (t' + 1)\<bar> \<le> eps" unfolding a1_def fadd_def
    by (rule fl_near) (use t'b in linarith)
  have t1b: "\<bar>t1\<bar> \<le> 4" unfolding t1_def using a1 t'b e by (auto simp: abs_le_iff)
  have a2: "\<bar>a2 - (t1 - 1)\<bar> \<le> eps" unfolding a2_def fsub_def
    by (rule fl_near) (use t1b in linarith)
  have t2b: "\<bar>t2\<bar> \<le> 2"
    using t t'b a1 a2 e unfolding t2_def t1_def by (auto simp: abs_le_iff split: if_splits)
  have psi: "\<bar>\<psi> - trap t\<bar> \<le> 30 * (262 * eps)"
    unfolding \<psi>_def
  proof (rule trap_branch[where t' = t' and ?t1.0 = t1 and ?a1.0 = a1 and ?a2.0 = a2])
    show "\<bar>t' - t\<bar> \<le> 262 * eps" by (rule t)
    show "262 * eps \<le> 1 / 100" using e by linarith
    show "- 1 / 2 \<le> t" "t \<le> 3 / 2" by (rule t)+
    show "t1 = (if t' < 0 then a1 else t')" by (rule t1_def)
    show "\<bar>a1 - (t' + 1)\<bar> \<le> 262 * eps" using a1 e by linarith
    show "t2 = (if 1 < t1 then a2 else t1)" by (rule t2_def)
    show "\<bar>a2 - (t1 - 1)\<bar> \<le> 262 * eps" using a2 e by linarith
    show "\<bar>c1 - 1 / 6\<bar> \<le> 262 * eps" using c1 e by linarith
    show "\<bar>c2 - 2 / 3\<bar> \<le> 262 * eps" using c2 e by linarith
  qed
  have "\<bar>d * \<psi> - d * trap t\<bar> = d * \<bar>\<psi> - trap t\<bar>"
    using d by (simp add: abs_mult right_diff_distrib[symmetric])
  also have "\<dots> \<le> 1 * (30 * (262 * eps))"
    using d m psi by (intro mult_mono) auto
  finally have dpsi: "\<bar>d * \<psi> - d * trap t\<bar> \<le> 7860 * eps" by simp
  have qp: "\<bar>fsub q' p' - d\<bar> \<le> 7233 * eps"
  proof -
    have "\<bar>fsub q' p' - ((m + d) - m)\<bar> \<le> 3612 * eps + 3620 * eps + eps"
      by (rule near_sub[OF q p]) (use p q m d e in linarith)
    then show ?thesis by simp
  qed
  have val: "\<bar>hue2rgb p' q' t' - (m + d * \<psi>)\<bar> \<le> 200000 * eps"
  proof -
    have h: "hue2rgb p' q' t' =
        (if t2 < c1 then fadd p' (fmul (fmul (fsub q' p') 6) t2)
         else if t2 < 1 / 2 then q'
         else if t2 < c2 then fadd p' (fmul (fmul (fsub q' p') (fsub c2 t2)) 6)
         else p')"
      by (simp add: hue2rgb_def Let_def t2_def t1_def a1_def a2_def c1_def c2_def)
    consider (b1) "t2 < c1" | (b2) "\<not> t2 < c1" "t2 < 1 / 2"
      | (b3) "\<not> t2 < c1" "\<not> t2 < 1 / 2" "t2 < c2" | (b4) "\<not> t2 < c1" "\<not> t2 < 1 / 2" "\<not> t2 < c2"
      by blast
    then show ?thesis
    proof cases
      case b1
      have s6: "\<bar>fmul (fsub q' p') 6 - d * 6\<bar> \<le> 7233 * eps * 6 + 1 * 0 + eps"
        by (rule near_mul[OF qp]) (use qp d m e in \<open>auto simp: abs_le_iff\<close>)
      have st: "\<bar>fmul (fmul (fsub q' p') 6) t2 - d * 6 * t2\<bar> \<le> (7233 * eps * 6 + 1 * 0 + eps) * 2 + 6 * 0 + eps"
      proof (rule near_mul[OF s6])
        show "\<bar>t2 - t2\<bar> \<le> 0" by simp
        show "\<bar>d * 6\<bar> \<le> 6" using d m by (auto simp: abs_le_iff)
        show "\<bar>t2\<bar> \<le> 2" by (rule t2b)
        have "\<bar>fmul (fsub q' p') 6\<bar> \<le> 7" using s6 d m e by (auto simp: abs_le_iff)
        then have "\<bar>fmul (fsub q' p') 6\<bar> * \<bar>t2\<bar> \<le> 7 * 2"
          using t2b by (intro mult_mono) auto
        then show "\<bar>fmul (fsub q' p') 6 * t2\<bar> \<le> 512" by (simp add: abs_mult)
      qed
      have "\<bar>fadd p' (fmul (fmul (fsub q' p') 6) t2) - (m + d * 6 * t2)\<bar>
          \<le> 3620 * eps + ((7233 * eps * 6 + 1 * 0 + eps) * 2 + 6 * 0 + eps) + eps"
      proof (rule near_add[OF p st])
        have "\<bar>d * 6 * t2\<bar> \<le> 6 * 2"
          unfolding abs_mult using d m t2b by (intro mult_mono) auto
        then show "\<bar>p' + fmul (fmul (fsub q' p') 6) t2\<bar> \<le> 512"
          using st p m d e by (auto simp: abs_le_iff)
      qed
      then show ?thesis using b1 e by (simp add: h \<psi>_def algebra_simps)
    next
      case b2
      then show ?thesis using q e by (simp add: h \<psi>_def)
    next
      case b3
      have ct: "\<bar>fsub c2 t2 - (c2 - t2)\<bar> \<le> eps"
        unfolding fsub_def by (rule fl_near) (use c2 t2b e in linarith)
      have ctb: "\<bar>fsub c2 t2\<bar> \<le> 4" using ct c2 t2b e by linarith
      have s1: "\<bar>fmul (fsub q' p') (fsub c2 t2) - d * (c2 - t2)\<bar> \<le> 7233 * eps * 4 + 1 * eps + eps"
      proof (rule near_mul[OF qp ct _ ctb])
        show "\<bar>d\<bar> \<le> 1" using d m by linarith
        have "\<bar>fsub q' p'\<bar> \<le> 2" using qp d m e by linarith
        then have "\<bar>fsub q' p'\<bar> * \<bar>fsub c2 t2\<bar> \<le> 2 * 4"
          using ctb by (intro mult_mono) auto
        then show "\<bar>fsub q' p' * fsub c2 t2\<bar> \<le> 512" by (simp add: abs_mult)
      qed
      have db: "\<bar>d * (c2 - t2)\<bar> \<le> 1 * 4"
        unfolding abs_mult using d m c2 t2b e by (intro mult_mono) (auto simp: abs_le_iff)
      have s6: "\<bar>fmul (fmul (fsub q' p') (fsub c2 t2)) 6 - d * (c2 - t2) * 6\<bar>
          \<le> (7233 * eps * 4 + 1 * eps + eps) * 6 + 4 * 0 + eps"
      proof (rule near_mul[OF s1])
        show "\<bar>(6::real) - 6\<bar> \<le> 0" "\<bar>6::real\<bar> \<le> 6" by simp_all
        show "\<bar>d * (c2 - t2)\<bar> \<le> 4" using db by simp
        show "\<bar>fmul (fsub q' p') (fsub c2 t2) * 6\<bar> \<le> 512" using s1 db e by (auto simp: abs_le_iff)
      qed
      have "\<bar>fadd p' (fmul (fmul (fsub q' p') (fsub c2 t2)) 6) - (m + d * (c2 - t2) * 6)\<bar>
          \<le> 3620 * eps + ((7233 * eps * 4 + 1 * eps + eps) * 6 + 4 * 0 + eps) + eps"
      proof (rule near_add[OF p s6])
        show "\<bar>p' + fmul (fmul (fsub q' p') (fsub c2 t2)) 6\<bar> \<le> 512"
          using s6 db p m d e by (auto simp: abs_le_iff)
      qed
      then show ?thesis using b3 e by (simp add: h \<psi>_def algebra_simps)
    next
      case b4
      then show ?thesis using p e by (simp add: h \<psi>_def)
    qed
  qed
  show ?thesis using val dpsi by linarith
qed

lemma disc_split:
  fixes x l' :: real
  assumes "x \<le> 254 / 255 \<or> x = 1 \<or> 256 / 255 \<le> x" and "\<bar>l' - x / 2\<bar> \<le> 3 * eps"
  shows "(1 / 2 < l' \<longrightarrow> 1 \<le> x) \<and> (\<not> 1 / 2 < l' \<longrightarrow> x \<le> 1)
    \<and> (l' < 1 / 2 \<longrightarrow> x \<le> 1) \<and> (\<not> l' < 1 / 2 \<longrightarrow> 1 \<le> x)"
proof -
  note e = eps_pos eps_small
  consider "x \<le> 254 / 255" | "x = 1" | "256 / 255 \<le> x" using assms(1) by blast
  then show ?thesis
  proof cases
    case 1
    with assms(2) e show ?thesis by - (intro conjI impI; linarith)
  next
    case 2
    with assms(2) e show ?thesis by - (intro conjI impI; linarith)
  next
    case 3
    with assms(2) e show ?thesis by - (intro conjI impI; linarith)
  qed
qed

lemma light_sat_near:
  fixes M m mx' mn' :: real
  assumes mx: "\<bar>mx' - M\<bar> \<le> eps" and mn: "\<bar>mn' - m\<bar> \<le> eps"
    and rng: "0 \<le> m" "M \<le> 1" and gap: "1 / 255 \<le> M - m"
    and disc: "M + m \<le> 254 / 255 \<or> M + m = 1 \<or> 256 / 255 \<le> M + m"
  defines "l' \<equiv> fdiv (fadd mx' mn') 2"
    and "d' \<equiv> fsub mx' mn'"
  defines "s' \<equiv> (if 1 / 2 < l' then fdiv d' (fsub (fsub 2 mx') mn') else fdiv d' (fadd mx' mn'))"
  defines "q' \<equiv> (if l' < 1 / 2 then fmul l' (fadd 1 s') else fsub (fadd l' s') (fmul l' s'))"
  defines "p' \<equiv> fsub (fmul 2 l') q'"
  shows "\<bar>d' - (M - m)\<bar> \<le> 3 * eps" and "1 / 256 \<le> d'"
    and "\<bar>q' - M\<bar> \<le> 3612 * eps" and "\<bar>p' - m\<bar> \<le> 3620 * eps"
proof -
  note e = eps_pos eps_small
  define L where "L = (M + m) / 2"
  define d where "d = M - m"
  define S where "S = (if 1 < M + m then d / (2 - M - m) else d / (M + m))"
  have sum: "\<bar>fadd mx' mn' - (M + m)\<bar> \<le> eps + eps + eps"
    by (rule near_add[OF mx mn]) (use mx mn rng gap e in linarith)
  have l: "\<bar>l' - L\<bar> \<le> 3 * eps"
  proof -
    have "\<bar>fdiv (fadd mx' mn') 2 - (M + m) / 2\<bar> \<le> ((eps + eps + eps) + 1 * 0) / 2 + eps"
      by (rule near_div[OF sum]) (use sum rng gap e in \<open>auto simp: abs_le_iff\<close>)
    then show ?thesis using e by (simp add: l'_def L_def)
  qed
  show d': "\<bar>d' - (M - m)\<bar> \<le> 3 * eps"
  proof -
    have "\<bar>fsub mx' mn' - (M - m)\<bar> \<le> eps + eps + eps"
      by (rule near_sub[OF mx mn]) (use mx mn rng gap e in linarith)
    then show ?thesis by (simp add: d'_def)
  qed
  show d'lb: "1 / 256 \<le> d'" using d' gap e by linarith
  have split: "(1 / 2 < l' \<longrightarrow> 1 \<le> M + m) \<and> (\<not> 1 / 2 < l' \<longrightarrow> M + m \<le> 1)
    \<and> (l' < 1 / 2 \<longrightarrow> M + m \<le> 1) \<and> (\<not> l' < 1 / 2 \<longrightarrow> 1 \<le> M + m)"
    by (rule disc_split[OF disc]) (use l in \<open>simp add: L_def\<close>)
  have hiA: "1 \<le> M + m" if "1 / 2 < l'" using that split by blast
  have loA: "M + m \<le> 1" if "\<not> 1 / 2 < l'" using that split by blast
  have hiB: "1 \<le> M + m" if "\<not> l' < 1 / 2" using that split by blast
  have loB: "M + m \<le> 1" if "l' < 1 / 2" using that split by blast
  have dpos: "0 < d" "d \<le> 1" using gap rng by (simp_all add: d_def)
  have Shi: "S = d / (2 - M - m)" if "1 \<le> M + m"
  proof (cases "M + m = 1")
    case True
    then have a: "2 - M - m = 1" by linarith
    have "S = d / (M + m)" using True by (simp add: S_def)
    also have "\<dots> = d" by (simp only: True div_by_1)
    also have "d = d / (2 - M - m)" by (simp only: a div_by_1)
    finally show ?thesis .
  next
    case False
    then show ?thesis using that by (simp add: S_def)
  qed
  have Slo: "S = d / (M + m)" if "M + m \<le> 1"
    using that by (auto simp: S_def)
  have den_hi: "1 / 255 \<le> 2 - M - m" using rng gap by linarith
  have den_lo: "1 / 255 \<le> M + m" using rng gap by linarith
  have S01: "0 \<le> S" "S \<le> 1"
  proof -
    have "0 \<le> d / (2 - M - m)" "0 \<le> d / (M + m)" using dpos den_hi den_lo by simp_all
    then show "0 \<le> S" by (simp add: S_def)
    have "d / (2 - M - m) \<le> 1" using den_hi rng by (simp add: d_def field_simps)
    moreover have "d / (M + m) \<le> 1" using den_lo rng by (simp add: d_def field_simps)
    ultimately show "S \<le> 1" by (simp add: S_def)
  qed
  have s: "\<bar>s' - S\<bar> \<le> 1800 * eps"
  proof (cases "1 / 2 < l'")
    case True
    have a: "\<bar>fsub 2 mx' - (2 - M)\<bar> \<le> 0 + eps + eps"
      by (rule near_sub[OF _ mx]) (use mx rng gap e in \<open>auto simp: abs_le_iff\<close>)
    have b: "\<bar>fsub (fsub 2 mx') mn' - (2 - M - m)\<bar> \<le> (0 + eps + eps) + eps + eps"
      by (rule near_sub[OF a mn]) (use a mn rng gap e in linarith)
    have "\<bar>fdiv d' (fsub (fsub 2 mx') mn') - (M - m) / (2 - M - m)\<bar>
        \<le> (3 * eps + 1 * ((0 + eps + eps) + eps + eps)) / (1 / 256) + eps"
    proof (rule near_div[OF d' b])
      show "(0::real) < 1 / 256" by simp
      show "1 / 256 \<le> 2 - M - m" using den_hi by linarith
      show y': "1 / 256 \<le> fsub (fsub 2 mx') mn'" using b den_hi e by linarith
      show "\<bar>M - m\<bar> \<le> 1 * (2 - M - m)" using rng gap by (simp; linarith)
      have "\<bar>d'\<bar> \<le> 2" using d' rng gap e by linarith
      then have "\<bar>d'\<bar> / fsub (fsub 2 mx') mn' \<le> 2 / (1 / 256)"
        using y' by (intro frac_le) auto
      then show "\<bar>d' / fsub (fsub 2 mx') mn'\<bar> \<le> 512" using y' by simp
    qed
    then show ?thesis using True e Shi[OF hiA[OF True]] by (simp add: s'_def d_def)
  next
    case False
    have "\<bar>fdiv d' (fadd mx' mn') - (M - m) / (M + m)\<bar>
        \<le> (3 * eps + 1 * (eps + eps + eps)) / (1 / 256) + eps"
    proof (rule near_div[OF d' sum])
      show "(0::real) < 1 / 256" by simp
      show "1 / 256 \<le> M + m" using den_lo by linarith
      show y': "1 / 256 \<le> fadd mx' mn'" using sum den_lo e by linarith
      show "\<bar>M - m\<bar> \<le> 1 * (M + m)" using rng gap by (simp; linarith)
      have "\<bar>d'\<bar> \<le> 2" using d' rng gap e by linarith
      then have "\<bar>d'\<bar> / fadd mx' mn' \<le> 2 / (1 / 256)"
        using y' by (intro frac_le) auto
      then show "\<bar>d' / fadd mx' mn'\<bar> \<le> 512" using y' by simp
    qed
    then show ?thesis using False e Slo[OF loA[OF False]] by (simp add: s'_def d_def)
  qed
  have Lb: "0 \<le> L" "L \<le> 1" using rng gap by (simp_all add: L_def)
  have l'b: "\<bar>l'\<bar> \<le> 2" using l Lb e by linarith
  have s'b: "\<bar>s'\<bar> \<le> 2" using s S01 e by linarith
  show q: "\<bar>q' - M\<bar> \<le> 3612 * eps"
  proof (cases "l' < 1 / 2")
    case True
    have lo: "M + m \<le> 1" by (rule loB[OF True])
    have ex: "L * (1 + S) = M"
    proof -
      define y where "y = M + m"
      have y: "0 < y" using den_lo by (simp add: y_def)
      have half: "L = y / 2" by (simp add: y_def L_def)
      have Sy: "S = d / y" unfolding y_def by (rule Slo[OF lo])
      have "L * S = (y / 2) * (d / y)" by (simp only: half Sy)
      also have "\<dots> = d / 2" using y by simp
      finally have "L * S = d / 2" .
      moreover have "L * (1 + S) = L + L * S" by (simp add: algebra_simps)
      ultimately show ?thesis by (simp add: L_def d_def field_simps)
    qed
    have a: "\<bar>fadd 1 s' - (1 + S)\<bar> \<le> 0 + 1800 * eps + eps"
      by (rule near_add[OF _ s]) (use s'b in \<open>auto simp: abs_le_iff\<close>)
    have "\<bar>fmul l' (fadd 1 s') - L * (1 + S)\<bar> \<le> 3 * eps * 4 + 1 * (0 + 1800 * eps + eps) + eps"
    proof (rule near_mul[OF l a])
      show "\<bar>L\<bar> \<le> 1" using Lb by linarith
      show b: "\<bar>fadd 1 s'\<bar> \<le> 4" using a S01 e by linarith
      have "\<bar>l'\<bar> * \<bar>fadd 1 s'\<bar> \<le> 2 * 4" using l'b b by (intro mult_mono) auto
      then show "\<bar>l' * fadd 1 s'\<bar> \<le> 512" by (simp add: abs_mult)
    qed
    then show ?thesis using True e by (simp add: q'_def ex)
  next
    case False
    have hi: "1 \<le> M + m" by (rule hiB[OF False])
    have ex: "L + S - L * S = M"
    proof -
      define y where "y = 2 - M - m"
      have y: "0 < y" using den_hi by (simp add: y_def)
      have half: "1 - L = y / 2" by (simp add: y_def L_def field_simps)
      have Sy: "S = d / y" unfolding y_def by (rule Shi[OF hi])
      have "S * (1 - L) = (d / y) * (y / 2)" by (simp only: half Sy)
      also have "\<dots> = d / 2" using y by simp
      finally have "S * (1 - L) = d / 2" .
      moreover have "L + S - L * S = L + S * (1 - L)" by (simp add: algebra_simps)
      ultimately show ?thesis by (simp add: L_def d_def field_simps)
    qed
    have a: "\<bar>fadd l' s' - (L + S)\<bar> \<le> 3 * eps + 1800 * eps + eps"
      by (rule near_add[OF l s]) (use l'b s'b in linarith)
    have b: "\<bar>fmul l' s' - L * S\<bar> \<le> 3 * eps * 2 + 1 * (1800 * eps) + eps"
    proof (rule near_mul[OF l s _ s'b])
      show "\<bar>L\<bar> \<le> 1" using Lb by linarith
      have "\<bar>l'\<bar> * \<bar>s'\<bar> \<le> 2 * 2" using l'b s'b by (intro mult_mono) auto
      then show "\<bar>l' * s'\<bar> \<le> 512" by (simp add: abs_mult)
    qed
    have LS: "0 \<le> L * S" "L * S \<le> 1"
      using Lb S01 by (auto intro: mult_nonneg_nonneg mult_le_one)
    have "\<bar>fsub (fadd l' s') (fmul l' s') - (L + S - L * S)\<bar>
        \<le> (3 * eps + 1800 * eps + eps) + (3 * eps * 2 + 1 * (1800 * eps) + eps) + eps"
      by (rule near_sub[OF a b]) (use a b Lb S01 LS e in linarith)
    then show ?thesis using False e by (simp add: q'_def ex)
  qed
  show "\<bar>p' - m\<bar> \<le> 3620 * eps"
  proof -
    have a: "\<bar>fmul 2 l' - 2 * L\<bar> \<le> 0 * 2 + 2 * (3 * eps) + eps"
      by (rule near_mul[OF _ l]) (use l'b in \<open>auto simp: abs_le_iff\<close>)
    have "\<bar>fsub (fmul 2 l') q' - (2 * L - M)\<bar> \<le> (0 * 2 + 2 * (3 * eps) + eps) + 3612 * eps + eps"
      by (rule near_sub[OF a q]) (use a q Lb rng gap e in linarith)
    moreover have "2 * L - M = m" unfolding L_def by (simp add: add_divide_distrib)
    ultimately show ?thesis using e unfolding p'_def by linarith
  qed
qed

lemma trap_vals:
  fixes y :: real
  shows "0 \<le> y \<Longrightarrow> y \<le> 1 / 6 \<Longrightarrow>
      trap (y + 1 / 3) = 1 \<and> trap y = 6 * y \<and> trap (y - 1 / 3) = 0"
    and "- 1 / 6 \<le> y \<Longrightarrow> y < 0 \<Longrightarrow>
      trap (y + 1 + 1 / 3) = 1 \<and> trap (y + 1) = 0 \<and> trap (y + 1 - 1 / 3) = - (6 * y)"
    and "0 \<le> y \<Longrightarrow> y \<le> 1 / 6 \<Longrightarrow>
      trap (y + 1 / 3 + 1 / 3) = 0 \<and> trap (y + 1 / 3) = 1 \<and> trap (y + 1 / 3 - 1 / 3) = 6 * y"
    and "- 1 / 6 \<le> y \<Longrightarrow> y < 0 \<Longrightarrow>
      trap (y + 1 / 3 + 1 / 3) = - (6 * y) \<and> trap (y + 1 / 3) = 1 \<and> trap (y + 1 / 3 - 1 / 3) = 0"
    and "0 \<le> y \<Longrightarrow> y < 1 / 6 \<Longrightarrow>
      trap (y + 2 / 3 + 1 / 3) = 6 * y \<and> trap (y + 2 / 3) = 0 \<and> trap (y + 2 / 3 - 1 / 3) = 1"
    and "- 1 / 6 \<le> y \<Longrightarrow> y < 0 \<Longrightarrow>
      trap (y + 2 / 3 + 1 / 3) = 0 \<and> trap (y + 2 / 3) = - (6 * y) \<and> trap (y + 2 / 3 - 1 / 3) = 1"
  unfolding trap_def Let_def by (auto split: if_splits)

lemma sixth:
  fixes n d :: real
  assumes "0 < d"
  defines "y \<equiv> n / d / 6"
  shows "d * (6 * y) = n" and "0 \<le> n \<Longrightarrow> 0 \<le> y" and "n < 0 \<Longrightarrow> y < 0"
    and "n \<le> d \<Longrightarrow> y \<le> 1 / 6" and "n < d \<Longrightarrow> y < 1 / 6" and "- d \<le> n \<Longrightarrow> - 1 / 6 \<le> y"
  using assms(1) by (simp_all add: y_def field_simps)

lemma exact_channels:
  fixes r g b :: real
  defines "M \<equiv> max r (max g b)" and "m \<equiv> min r (min g b)"
  defines "d \<equiv> M - m" and "T \<equiv> hue6 r g b / 6"
  assumes gap: "m < M"
  shows "0 \<le> T \<and> T \<le> 1 \<and> m + d * trap (T + 1 / 3) = r \<and> m + d * trap T = g
    \<and> m + d * trap (T - 1 / 3) = b"
proof -
  have d: "0 < d" using gap by (simp add: d_def)
  have h: "hue6 r g b =
      (if M = r then (g - b) / d + (if g < b then 6 else 0)
       else if M = g then (b - r) / d + 2
       else (r - g) / d + 4)"
    unfolding hue6_def Let_def M_def m_def d_def by (rule refl)
  consider (rg) "M = r" "b \<le> g" | (rb) "M = r" "g < b"
    | (gb) "M \<noteq> r" "M = g" "r \<le> b" | (gr) "M \<noteq> r" "M = g" "b < r"
    | (br) "M \<noteq> r" "M \<noteq> g" "g \<le> r" | (bg) "M \<noteq> r" "M \<noteq> g" "r < g"
    by linarith
  then show ?thesis
  proof cases
    case rg
    define y where "y = (g - b) / d / 6"
    have mb: "m = b" "M = r" "g \<le> r" using rg unfolding M_def m_def by linarith+
    have n: "0 \<le> g - b" "g - b \<le> d" using mb rg unfolding d_def by linarith+
    note s = sixth[OF d, of "g - b", folded y_def]
    have T: "T = y" using rg by (simp add: T_def h y_def)
    have v: "trap (y + 1 / 3) = 1 \<and> trap y = 6 * y \<and> trap (y - 1 / 3) = 0"
      using s(2)[OF n(1)] s(4)[OF n(2)] by (rule trap_vals(1))
    show ?thesis unfolding T using v s(1) s(2)[OF n(1)] s(4)[OF n(2)] mb by (simp add: d_def)
  next
    case rb
    define y where "y = (g - b) / d / 6"
    have mb: "m = g" "M = r" "b \<le> r" using rb unfolding M_def m_def by linarith+
    have n: "g - b < 0" "- d \<le> g - b" using mb rb unfolding d_def by linarith+
    note s = sixth[OF d, of "g - b", folded y_def]
    have T: "T = y + 1" using rb
      by (simp add: T_def h y_def add_divide_distrib)
    have v: "trap (y + 1 + 1 / 3) = 1 \<and> trap (y + 1) = 0 \<and> trap (y + 1 - 1 / 3) = - (6 * y)"
      using s(6)[OF n(2)] s(3)[OF n(1)] by (rule trap_vals(2))
    show ?thesis unfolding T using v s(1) s(6)[OF n(2)] s(3)[OF n(1)] mb by (simp add: d_def)
  next
    case gb
    define y where "y = (b - r) / d / 6"
    have mb: "m = r" "M = g" "b \<le> g" using gb unfolding M_def m_def by linarith+
    have n: "0 \<le> b - r" "b - r \<le> d" using mb gb unfolding d_def by linarith+
    note s = sixth[OF d, of "b - r", folded y_def]
    have T: "T = y + 1 / 3" using gb
      by (simp add: T_def h y_def add_divide_distrib)
    have v: "trap (y + 1 / 3 + 1 / 3) = 0 \<and> trap (y + 1 / 3) = 1 \<and> trap (y + 1 / 3 - 1 / 3) = 6 * y"
      using s(2)[OF n(1)] s(4)[OF n(2)] by (rule trap_vals(3))
    show ?thesis unfolding T using v s(1) s(2)[OF n(1)] s(4)[OF n(2)] mb by (simp add: d_def)
  next
    case gr
    define y where "y = (b - r) / d / 6"
    have mb: "m = b" "M = g" "r \<le> g" using gr unfolding M_def m_def by linarith+
    have n: "b - r < 0" "- d \<le> b - r" using mb gr unfolding d_def by linarith+
    note s = sixth[OF d, of "b - r", folded y_def]
    have T: "T = y + 1 / 3" using gr
      by (simp add: T_def h y_def add_divide_distrib)
    have v: "trap (y + 1 / 3 + 1 / 3) = - (6 * y) \<and> trap (y + 1 / 3) = 1 \<and> trap (y + 1 / 3 - 1 / 3) = 0"
      using s(6)[OF n(2)] s(3)[OF n(1)] by (rule trap_vals(4))
    show ?thesis unfolding T using v s(1) s(6)[OF n(2)] s(3)[OF n(1)] mb by (simp add: d_def)
  next
    case br
    define y where "y = (r - g) / d / 6"
    have mb: "m = g" "M = b" "r < b" using br unfolding M_def m_def by linarith+
    have n: "0 \<le> r - g" "r - g < d" using mb br unfolding d_def by linarith+
    note s = sixth[OF d, of "r - g", folded y_def]
    have T: "T = y + 2 / 3" using br
      by (simp add: T_def h y_def add_divide_distrib)
    have v: "trap (y + 2 / 3 + 1 / 3) = 6 * y \<and> trap (y + 2 / 3) = 0 \<and> trap (y + 2 / 3 - 1 / 3) = 1"
      using s(2)[OF n(1)] s(5)[OF n(2)] by (rule trap_vals(5))
    show ?thesis unfolding T using v s(1) s(2)[OF n(1)] s(5)[OF n(2)] mb by (simp add: d_def)
  next
    case bg
    define y where "y = (r - g) / d / 6"
    have mb: "m = r" "M = b" "g < b" using bg unfolding M_def m_def by linarith+
    have n: "r - g < 0" "- d \<le> r - g" using mb bg unfolding d_def by linarith+
    note s = sixth[OF d, of "r - g", folded y_def]
    have T: "T = y + 2 / 3" using bg
      by (simp add: T_def h y_def add_divide_distrib)
    have v: "trap (y + 2 / 3 + 1 / 3) = 0 \<and> trap (y + 2 / 3) = - (6 * y) \<and> trap (y + 2 / 3 - 1 / 3) = 1"
      using s(6)[OF n(2)] s(3)[OF n(1)] by (rule trap_vals(6))
    show ?thesis unfolding T using v s(1) s(6)[OF n(2)] s(3)[OF n(1)] mb by (simp add: d_def)
  qed
qed

lemma sector_near:
  fixes x y x' y' d d' k :: real
  assumes x: "\<bar>x' - x\<bar> \<le> eps" and y: "\<bar>y' - y\<bar> \<le> eps"
    and d': "\<bar>d' - d\<bar> \<le> 3 * eps" "1 / 256 \<le> d'" and d: "1 / 255 \<le> d" "d \<le> 1"
    and n: "\<bar>x - y\<bar> \<le> d" and k: "0 \<le> k" "k \<le> 6"
    and H: "0 \<le> (x - y) / d + k" "(x - y) / d + k \<le> 6"
  shows "\<bar>fdiv (fmul (fdiv (fadd (fdiv (fsub x' y') d') k) 6) 360) 360 - ((x - y) / d + k) / 6\<bar>
    \<le> 260 * eps"
proof -
  note e = eps_pos eps_small
  define H6 where "H6 = (x - y) / d + k"
  have a: "\<bar>fsub x' y' - (x - y)\<bar> \<le> eps + eps + eps"
    by (rule near_sub[OF x y]) (use x y n d e in linarith)
  have ab: "\<bar>fsub x' y'\<bar> \<le> 2" using a n d e by linarith
  have b: "\<bar>fdiv (fsub x' y') d' - (x - y) / d\<bar> \<le> ((eps + eps + eps) + 1 * (3 * eps)) / (1 / 256) + eps"
  proof (rule near_div[OF a d'(1) _ _ d'(2)])
    show "(0::real) < 1 / 256" by simp
    show "1 / 256 \<le> d" using d by linarith
    show "\<bar>x - y\<bar> \<le> 1 * d" using n by simp
    have "\<bar>fsub x' y'\<bar> / d' \<le> 2 / (1 / 256)" using ab d'(2) by (intro frac_le) auto
    then show "\<bar>fsub x' y' / d'\<bar> \<le> 512" using d'(2) by simp
  qed
  have b': "\<bar>fdiv (fsub x' y') d' - (x - y) / d\<bar> \<le> 1537 * eps" using b by simp
  have q1: "\<bar>(x - y) / d\<bar> \<le> 1" using n d by (simp add: field_simps)
  have c: "\<bar>fadd (fdiv (fsub x' y') d') k - H6\<bar>
      \<le> (((eps + eps + eps) + 1 * (3 * eps)) / (1 / 256) + eps) + 0 + eps"
    unfolding H6_def
  proof (rule near_add[OF b])
    show "\<bar>k - k\<bar> \<le> 0" by simp
    show "\<bar>fdiv (fsub x' y') d' + k\<bar> \<le> 512" using b' q1 k e by linarith
  qed
  have H6b: "\<bar>H6\<bar> \<le> 6" using H by (simp add: H6_def abs_le_iff)
  have c': "\<bar>fadd (fdiv (fsub x' y') d') k - H6\<bar> \<le> 1538 * eps" using c by simp
  have f: "\<bar>fdiv (fadd (fdiv (fsub x' y') d') k) 6 - H6 / 6\<bar> \<le> (1538 * eps + 1 * 0) / 6 + eps"
  proof (rule near_div[OF c'])
    show "\<bar>(6::real) - 6\<bar> \<le> 0" "(0::real) < 6" "(6::real) \<le> 6" "(6::real) \<le> 6" by simp_all
    show "\<bar>H6\<bar> \<le> 1 * 6" using H6b by simp
    show "\<bar>fadd (fdiv (fsub x' y') d') k / 6\<bar> \<le> 512" using c' H6b e by linarith
  qed
  have f': "\<bar>fdiv (fadd (fdiv (fsub x' y') d') k) 6 - H6 / 6\<bar> \<le> 258 * eps" using f e by simp
  have fb: "\<bar>fdiv (fadd (fdiv (fsub x' y') d') k) 6\<bar> \<le> 2" using f' H6b e by linarith
  have g: "\<bar>fmul (fdiv (fadd (fdiv (fsub x' y') d') k) 6) 360 - H6 / 6 * 360\<bar>
      \<le> 258 * eps * 360 + 1 * 0 + eps"
  proof (rule near_mul[OF f'])
    show "\<bar>(360::real) - 360\<bar> \<le> 0" "\<bar>360::real\<bar> \<le> 360" by simp_all
    show "\<bar>H6 / 6\<bar> \<le> 1" using H6b by linarith
    show "\<bar>fdiv (fadd (fdiv (fsub x' y') d') k) 6 * 360\<bar> \<le> 512" using f' H6b e by linarith
  qed
  have g': "\<bar>fmul (fdiv (fadd (fdiv (fsub x' y') d') k) 6) 360 - H6 / 6 * 360\<bar> \<le> 92881 * eps"
    using g by simp
  have gb: "\<bar>H6 / 6 * 360\<bar> \<le> 360" using H6b by linarith
  have "\<bar>fdiv (fmul (fdiv (fadd (fdiv (fsub x' y') d') k) 6) 360) 360 - H6 / 6 * 360 / 360\<bar>
      \<le> ((258 * eps * 360 + 1 * 0 + eps) + 1 * 0) / 360 + eps"
  proof (rule near_div[OF g])
    show "\<bar>(360::real) - 360\<bar> \<le> 0" "(0::real) < 360" "(360::real) \<le> 360" "(360::real) \<le> 360"
      by simp_all
    show "\<bar>H6 / 6 * 360\<bar> \<le> 1 * 360" using gb by simp
    show "\<bar>fmul (fdiv (fadd (fdiv (fsub x' y') d') k) 6) 360 / 360\<bar> \<le> 512" using g' gb e by linarith
  qed
  moreover have "H6 / 6 * 360 / 360 = H6 / 6" by simp
  moreover have "((258 * eps * 360 + 1 * 0 + eps) + 1 * 0) / 360 + eps \<le> 260 * eps"
    using e by simp
  ultimately have "\<bar>fdiv (fmul (fdiv (fadd (fdiv (fsub x' y') d') k) 6) 360) 360 - H6 / 6\<bar>
      \<le> 260 * eps" by (simp only:)
  then show ?thesis by (simp only: H6_def)
qed

lemma rgbToHsl_channels:
  "rgbToHsl r8 g8 b8 =
    hslOfChannels (fdiv (of_nat (unat r8)) 255) (fdiv (of_nat (unat g8)) 255)
      (fdiv (of_nat (unat b8)) 255)"
  unfolding rgbToHsl_def hslOfChannels_def Let_def by (rule refl)

lemma max3_eq:
  fixes a b c :: real
  shows "(max a (max b c) = a) = (b \<le> a \<and> c \<le> a)"
    and "(max a (max b c) = b) = (a \<le> b \<and> c \<le> b)"
  by (auto simp: max_def)

lemma channels_roundtrip:
  fixes r g b r' g' b' :: real
  assumes ch: "\<bar>r' - r\<bar> \<le> eps" "\<bar>g' - g\<bar> \<le> eps" "\<bar>b' - b\<bar> \<le> eps"
    and rng: "0 \<le> r" "r \<le> 1" "0 \<le> g" "g \<le> 1" "0 \<le> b" "b \<le> 1"
    and ord: "r' \<le> g' \<longleftrightarrow> r \<le> g" "g' \<le> r' \<longleftrightarrow> g \<le> r" "g' \<le> b' \<longleftrightarrow> g \<le> b"
      "b' \<le> g' \<longleftrightarrow> b \<le> g" "r' \<le> b' \<longleftrightarrow> r \<le> b" "b' \<le> r' \<longleftrightarrow> b \<le> r"
    and gap: "1 / 255 \<le> max r (max g b) - min r (min g b)"
    and disc: "max r (max g b) + min r (min g b) \<le> 254 / 255
      \<or> max r (max g b) + min r (min g b) = 1
      \<or> 256 / 255 \<le> max r (max g b) + min r (min g b)"
  shows "\<exists>H s l cr cg cb. hslOfChannels r' g' b' = (H, s, l)
    \<and> hslToRgb (Some H) s l = (js_round (fmul cr 255), js_round (fmul cg 255), js_round (fmul cb 255))
    \<and> \<bar>cr - r\<bar> \<le> 210000 * eps \<and> \<bar>cg - g\<bar> \<le> 210000 * eps \<and> \<bar>cb - b\<bar> \<le> 210000 * eps"
proof -
  note e = eps_pos eps_small
  define M where "M = max r (max g b)"
  define m where "m = min r (min g b)"
  define d where "d = M - m"
  define T where "T = hue6 r g b / 6"
  define mx' where "mx' = max r' (max g' b')"
  define mn' where "mn' = min r' (min g' b')"
  define l' where "l' = fdiv (fadd mx' mn') 2"
  define d' where "d' = fsub mx' mn'"
  define s' where "s' = (if 1 / 2 < l' then fdiv d' (fsub (fsub 2 mx') mn') else fdiv d' (fadd mx' mn'))"
  define q' where "q' = (if l' < 1 / 2 then fmul l' (fadd 1 s') else fsub (fadd l' s') (fmul l' s'))"
  define p' where "p' = fsub (fmul 2 l') q'"
  define h6' where "h6' = (if mx' = r' then fadd (fdiv (fsub g' b') d') (if g' < b' then 6 else 0)
                   else if mx' = g' then fadd (fdiv (fsub b' r') d') 2
                   else fadd (fdiv (fsub r' g') d') 4)"
  define H' where "H' = fmul (fdiv h6' 6) 360"
  define t0 where "t0 = fdiv H' 360"
  have mx: "\<bar>mx' - M\<bar> \<le> eps" unfolding mx'_def M_def using ch by linarith
  have mn: "\<bar>mn' - m\<bar> \<le> eps" unfolding mn'_def m_def using ch by linarith
  have Mm: "0 \<le> m" "M \<le> 1" "m \<le> M" unfolding M_def m_def using rng by linarith+
  have gap': "1 / 255 \<le> M - m" using gap by (simp add: M_def m_def)
  have disc': "M + m \<le> 254 / 255 \<or> M + m = 1 \<or> 256 / 255 \<le> M + m"
    using disc by (simp add: M_def m_def)
  have ne: "mx' \<noteq> mn'" using mx mn gap' e by linarith
  have neq: "(max r' (max g' b') = min r' (min g' b')) = False"
    using ne by (simp add: mx'_def mn'_def)
  have out: "hslOfChannels r' g' b' = (H', s', l')"
    unfolding hslOfChannels_def Let_def H'_def h6'_def s'_def d'_def l'_def mx'_def mn'_def neq if_False
    by (rule refl)
  note ls = light_sat_near[OF mx mn Mm(1,2) gap' disc', folded l'_def d'_def, folded s'_def,
      folded q'_def, folded p'_def]
  have d'1: "\<bar>d' - d\<bar> \<le> 3 * eps" using ls(1) by (simp add: d_def)
  have d'2: "1 / 256 \<le> d'" by (rule ls(2))
  have q: "\<bar>q' - (m + d)\<bar> \<le> 3612 * eps" using ls(3) by (simp add: d_def)
  have p: "\<bar>p' - m\<bar> \<le> 3620 * eps" by (rule ls(4))
  have dd: "1 / 255 \<le> d" "d \<le> 1" "0 \<le> d" "m + d \<le> 1" using gap' Mm by (simp_all add: d_def)
  have ex: "0 \<le> T \<and> T \<le> 1 \<and> m + d * trap (T + 1 / 3) = r \<and> m + d * trap T = g
      \<and> m + d * trap (T - 1 / 3) = b"
    unfolding T_def d_def M_def m_def
    by (rule exact_channels) (use gap' in \<open>simp add: M_def m_def\<close>)
  have othM: "(mx' = r') = (M = r)" "(mx' = g') = (M = g)"
    unfolding mx'_def M_def max3_eq by (simp_all only: ord)
  have oth: "(g' < b') = (g < b)" using ord by auto
  have h6: "hue6 r g b =
      (if M = r then (g - b) / d + (if g < b then 6 else 0)
       else if M = g then (b - r) / d + 2
       else (r - g) / d + 4)"
    unfolding hue6_def Let_def M_def m_def d_def by (rule refl)
  have Hb: "0 \<le> hue6 r g b" "hue6 r g b \<le> 6" using ex by (simp_all add: T_def)
  have t0: "\<bar>t0 - T\<bar> \<le> 260 * eps"
  proof (cases "M = r")
    case True
    have n: "\<bar>g - b\<bar> \<le> d" unfolding d_def M_def m_def by linarith
    have k: "0 \<le> (if g < b then 6 else 0 :: real)" "(if g < b then 6 else 0 :: real) \<le> 6" by simp_all
    have "\<bar>fdiv (fmul (fdiv (fadd (fdiv (fsub g' b') d') (if g < b then 6 else 0)) 6) 360) 360
        - ((g - b) / d + (if g < b then 6 else 0)) / 6\<bar> \<le> 260 * eps"
      by (rule sector_near[OF ch(2) ch(3) d'1 d'2 dd(1,2) n k]) (use Hb True in \<open>simp_all add: h6\<close>)
    then show ?thesis using True by (simp add: t0_def H'_def h6'_def othM oth T_def h6)
  next
    case False
    show ?thesis
    proof (cases "M = g")
      case True
      have n: "\<bar>b - r\<bar> \<le> d" unfolding d_def M_def m_def by linarith
      have "\<bar>fdiv (fmul (fdiv (fadd (fdiv (fsub b' r') d') 2) 6) 360) 360
          - ((b - r) / d + 2) / 6\<bar> \<le> 260 * eps"
        by (rule sector_near[OF ch(3) ch(1) d'1 d'2 dd(1,2) n])
          (use Hb True \<open>M \<noteq> r\<close> in \<open>simp_all add: h6\<close>)
      then show ?thesis using True \<open>M \<noteq> r\<close> by (simp add: t0_def H'_def h6'_def othM oth T_def h6)
    next
      case False
      have n: "\<bar>r - g\<bar> \<le> d" unfolding d_def M_def m_def by linarith
      have "\<bar>fdiv (fmul (fdiv (fadd (fdiv (fsub r' g') d') 4) 6) 360) 360
          - ((r - g) / d + 4) / 6\<bar> \<le> 260 * eps"
        by (rule sector_near[OF ch(1) ch(2) d'1 d'2 dd(1,2) n])
          (use Hb False \<open>M \<noteq> r\<close> in \<open>simp_all add: h6\<close>)
      then show ?thesis using False \<open>M \<noteq> r\<close> by (simp add: t0_def H'_def h6'_def othM oth T_def h6)
    qed
  qed
  have third: "\<bar>fdiv 1 3 - 1 / 3\<bar> \<le> eps" by (rule fdiv_const_near) simp
  have t0b: "\<bar>t0\<bar> \<le> 2" using t0 ex e by linarith
  have tr: "\<bar>fadd t0 (fdiv 1 3) - (T + 1 / 3)\<bar> \<le> 262 * eps"
  proof -
    have "\<bar>fadd t0 (fdiv 1 3) - (T + 1 / 3)\<bar> \<le> 260 * eps + eps + eps"
      by (rule near_add[OF t0 third]) (use t0b third e in linarith)
    then show ?thesis by simp
  qed
  have tg: "\<bar>t0 - T\<bar> \<le> 262 * eps" using t0 e by linarith
  have tb: "\<bar>fsub t0 (fdiv 1 3) - (T - 1 / 3)\<bar> \<le> 262 * eps"
  proof -
    have "\<bar>fsub t0 (fdiv 1 3) - (T - 1 / 3)\<bar> \<le> 260 * eps + eps + eps"
      by (rule near_sub[OF t0 third]) (use t0b third e in linarith)
    then show ?thesis by simp
  qed
  have cr: "\<bar>hue2rgb p' q' (fadd t0 (fdiv 1 3)) - (m + d * trap (T + 1 / 3))\<bar> \<le> 210000 * eps"
    by (rule hue2rgb_near[OF p q Mm(1) dd(3,4) tr]) (use ex in linarith)+
  have cg: "\<bar>hue2rgb p' q' t0 - (m + d * trap T)\<bar> \<le> 210000 * eps"
    by (rule hue2rgb_near[OF p q Mm(1) dd(3,4) tg]) (use ex in linarith)+
  have cb: "\<bar>hue2rgb p' q' (fsub t0 (fdiv 1 3)) - (m + d * trap (T - 1 / 3))\<bar> \<le> 210000 * eps"
    by (rule hue2rgb_near[OF p q Mm(1) dd(3,4) tb]) (use ex in linarith)+
  have rgb: "hslToRgb (Some H') s' l' =
      (js_round (fmul (hue2rgb p' q' (fadd t0 (fdiv 1 3))) 255),
       js_round (fmul (hue2rgb p' q' t0) 255),
       js_round (fmul (hue2rgb p' q' (fsub t0 (fdiv 1 3))) 255))"
    unfolding hslToRgb_def Let_def q'_def p'_def t0_def option.case by (rule refl)
  have cr': "\<bar>hue2rgb p' q' (fadd t0 (fdiv 1 3)) - r\<bar> \<le> 210000 * eps" using cr ex by simp
  have cg': "\<bar>hue2rgb p' q' t0 - g\<bar> \<le> 210000 * eps" using cg ex by simp
  have cb': "\<bar>hue2rgb p' q' (fsub t0 (fdiv 1 3)) - b\<bar> \<le> 210000 * eps" using cb ex by simp
  show ?thesis
    by (rule exI[of _ H'], rule exI[of _ s'], rule exI[of _ l'],
        rule exI[of _ "hue2rgb p' q' (fadd t0 (fdiv 1 3))"], rule exI[of _ "hue2rgb p' q' t0"],
        rule exI[of _ "hue2rgb p' q' (fsub t0 (fdiv 1 3))"])
      (intro conjI out rgb cr' cg' cb')
qed

lemma chan_near: "n \<le> 255 \<Longrightarrow> \<bar>fdiv (real n) 255 - real n / 255\<bar> \<le> eps"
  by (rule fdiv_const_near) simp

lemma chan_less:
  assumes "i < j" "j \<le> 255"
  shows "fdiv (real i) 255 < fdiv (real j) 255"
proof -
  have "real i + 1 \<le> real j" using assms(1) by linarith
  then have "real i / 255 + 1 / 255 \<le> real j / 255" by simp
  moreover have "\<bar>fdiv (real i) 255 - real i / 255\<bar> \<le> eps" "\<bar>fdiv (real j) 255 - real j / 255\<bar> \<le> eps"
    using assms by (auto intro!: chan_near)
  ultimately show ?thesis using eps_small eps_pos by linarith
qed

lemma chan_le_iff:
  assumes "i \<le> 255" "j \<le> 255"
  shows "(fdiv (real i) 255 \<le> fdiv (real j) 255) = (real i / 255 \<le> real j / 255)"
proof (cases "i \<le> j")
  case True
  then have "fdiv (real i) 255 \<le> fdiv (real j) 255"
    using chan_less[of i j] assms by (cases "i = j") auto
  then show ?thesis using True by simp
next
  case False
  then have "fdiv (real j) 255 < fdiv (real i) 255" using chan_less[of j i] assms by simp
  then show ?thesis using False by simp
qed

lemma round_near:
  assumes "n \<le> 255" and "\<bar>c - real n / 255\<bar> \<le> 210000 * eps"
  shows "js_round (fmul c 255) = int n"
proof -
  note e = eps_pos eps_small
  have n: "0 \<le> real n" "real n \<le> 255" using assms(1) by simp_all
  have c: "\<bar>c * 255 - real n\<bar> \<le> 53550000 * eps" using assms(2) by linarith
  have "\<bar>fl (c * 255) - c * 255\<bar> \<le> eps" by (rule fl_near) (use c n e in linarith)
  then have "real_of_int (int n) \<le> fl (c * 255) + 1 / 2" "fl (c * 255) + 1 / 2 < real_of_int (int n) + 1"
    using c e by simp_all
  then have "\<lfloor>fl (c * 255) + 1 / 2\<rfloor> = int n" by (rule floor_unique)
  then show ?thesis by (simp add: js_round_def fmul_def)
qed

lemma roundtrip_nat:
  fixes R G B :: nat
  assumes le: "R \<le> 255" "G \<le> 255" "B \<le> 255" and ne: "R \<noteq> G \<or> G \<noteq> B"
  shows "(case hslOfChannels (fdiv (real R) 255) (fdiv (real G) 255) (fdiv (real B) 255) of
      (H, s, l) \<Rightarrow> hslToRgb (Some H) s l) = (int R, int G, int B)"
proof -
  define r where "r = real R / 255"
  define g where "g = real G / 255"
  define b where "b = real B / 255"
  define Mi where "Mi = max R (max G B)"
  define mi where "mi = min R (min G B)"
  have M: "max r (max g b) = real Mi / 255"
    unfolding r_def g_def b_def Mi_def by (simp add: max_def)
  have m: "min r (min g b) = real mi / 255"
    unfolding r_def g_def b_def mi_def by (simp add: min_def)
  have lt: "mi < Mi" using ne unfolding Mi_def mi_def by linarith
  have Mle: "Mi \<le> 255" using le unfolding Mi_def by simp
  have gap: "1 / 255 \<le> max r (max g b) - min r (min g b)"
  proof -
    have "real mi + 1 \<le> real Mi" using lt by linarith
    then show ?thesis unfolding M m by (simp add: field_simps)
  qed
  have disc: "max r (max g b) + min r (min g b) \<le> 254 / 255
      \<or> max r (max g b) + min r (min g b) = 1
      \<or> 256 / 255 \<le> max r (max g b) + min r (min g b)"
  proof -
    consider "Mi + mi \<le> 254" | "Mi + mi = 255" | "256 \<le> Mi + mi" by linarith
    then show ?thesis
    proof cases
      case 1
      then have "real Mi + real mi \<le> 254" by linarith
      then show ?thesis unfolding M m by (simp add: field_simps)
    next
      case 2
      then have "real Mi + real mi = 255" by linarith
      then show ?thesis unfolding M m by (simp add: field_simps)
    next
      case 3
      then have "256 \<le> real Mi + real mi" by linarith
      then show ?thesis unfolding M m by (simp add: field_simps)
    qed
  qed
  have "\<exists>H s l cr cg cb.
      hslOfChannels (fdiv (real R) 255) (fdiv (real G) 255) (fdiv (real B) 255) = (H, s, l)
    \<and> hslToRgb (Some H) s l = (js_round (fmul cr 255), js_round (fmul cg 255), js_round (fmul cb 255))
    \<and> \<bar>cr - r\<bar> \<le> 210000 * eps \<and> \<bar>cg - g\<bar> \<le> 210000 * eps \<and> \<bar>cb - b\<bar> \<le> 210000 * eps"
  proof (rule channels_roundtrip)
    show "\<bar>fdiv (real R) 255 - r\<bar> \<le> eps" "\<bar>fdiv (real G) 255 - g\<bar> \<le> eps"
      "\<bar>fdiv (real B) 255 - b\<bar> \<le> eps"
      unfolding r_def g_def b_def using le by (auto intro!: chan_near)
    show "0 \<le> r" "r \<le> 1" "0 \<le> g" "g \<le> 1" "0 \<le> b" "b \<le> 1"
      unfolding r_def g_def b_def using le by simp_all
    show "fdiv (real R) 255 \<le> fdiv (real G) 255 \<longleftrightarrow> r \<le> g"
      "fdiv (real G) 255 \<le> fdiv (real R) 255 \<longleftrightarrow> g \<le> r"
      "fdiv (real G) 255 \<le> fdiv (real B) 255 \<longleftrightarrow> g \<le> b"
      "fdiv (real B) 255 \<le> fdiv (real G) 255 \<longleftrightarrow> b \<le> g"
      "fdiv (real R) 255 \<le> fdiv (real B) 255 \<longleftrightarrow> r \<le> b"
      "fdiv (real B) 255 \<le> fdiv (real R) 255 \<longleftrightarrow> b \<le> r"
      unfolding r_def g_def b_def using le by (simp_all only: chan_le_iff)
    show "1 / 255 \<le> max r (max g b) - min r (min g b)" by (rule gap)
    show "max r (max g b) + min r (min g b) \<le> 254 / 255
      \<or> max r (max g b) + min r (min g b) = 1
      \<or> 256 / 255 \<le> max r (max g b) + min r (min g b)" by (rule disc)
  qed
  then obtain H s l cr cg cb where
    out: "hslOfChannels (fdiv (real R) 255) (fdiv (real G) 255) (fdiv (real B) 255) = (H, s, l)"
    and rgb: "hslToRgb (Some H) s l = (js_round (fmul cr 255), js_round (fmul cg 255), js_round (fmul cb 255))"
    and c: "\<bar>cr - r\<bar> \<le> 210000 * eps" "\<bar>cg - g\<bar> \<le> 210000 * eps" "\<bar>cb - b\<bar> \<le> 210000 * eps"
    by blast
  have "js_round (fmul cr 255) = int R" "js_round (fmul cg 255) = int G" "js_round (fmul cb 255) = int B"
    using c le unfolding r_def g_def b_def by (auto intro!: round_near)
  then show ?thesis by (simp add: out rgb)
qed

lemma hsl_round_trip_exact:
  fixes r g b :: byte
  shows "(case rgbToHsl r g b of (h, s, l) \<Rightarrow> hslToRgb (Some h) s l) = (uint r, uint g, uint b)"
proof (cases "r = g \<and> g = b")
  case True
  then show ?thesis
    unfolding True[THEN conjunct1] True[THEN conjunct2] rgbToHsl_gray prod.case recolor_gray
    by simp
next
  case False
  have le: "unat r \<le> 255" "unat g \<le> 255" "unat b \<le> 255"
    using unsigned_less[of r, where 'a = nat] unsigned_less[of g, where 'a = nat]
      unsigned_less[of b, where 'a = nat] by simp_all
  have ne: "unat r \<noteq> unat g \<or> unat g \<noteq> unat b" using False by (simp add: word_unat_eq_iff)
  show ?thesis
    unfolding rgbToHsl_channels using roundtrip_nat[OF le ne] by simp
qed

section \<open>The claim about the round trip\<close>

text \<open>
  C1. For every triple of bytes, \<^verbatim>\<open>_hslToRgb\<close> applied to the result of \<^verbatim>\<open>_rgbToHsl\<close>
  returns the triple itself; in particular each channel is within 1 of the channel it
  came from.
\<close>

theorem rgb_hsl_round_trip:
  fixes r g b :: byte
  shows "(case rgbToHsl r g b of (h, s, l) \<Rightarrow> hslToRgb (Some h) s l) = (uint r, uint g, uint b)
    \<and> (case rgbToHsl r g b of (h, s, l) \<Rightarrow>
         case hslToRgb (Some h) s l of (r', g', b') \<Rightarrow>
           \<bar>r' - uint r\<bar> \<le> 1 \<and> \<bar>g' - uint g\<bar> \<le> 1 \<and> \<bar>b' - uint b\<bar> \<le> 1)"
  using hsl_round_trip_exact[of r g b] by (auto split: prod.splits)

section \<open>The lightness band\<close>

lemma px_red_sixteenth: "recolorPixelSpec (Some (1 / 16)) (255, 0, 0, 255) = (255, 0, 0, 255)"
  by (simp add: px_ev cong: let_weak_cong)

lemma own_hue_unchanged:
  "recolorPixelSpec (Some (fst (rgbToHsl r g b))) (r, g, b, a) = (r, g, b, a)"
proof -
  have "hslToRgb (Some (fst (rgbToHsl r g b))) (fst (snd (rgbToHsl r g b)))
      (snd (snd (rgbToHsl r g b))) = (uint r, uint g, uint b)"
    using hsl_round_trip_exact[of r g b] by (simp add: split_beta)
  then show ?thesis unfolding recolorPixelSpec_unfold by simp
qed

text \<open>
  C4, as the code has it. For every target hue (a number or \<open>NaN\<close>), a pixel whose
  lightness is below 0.03 or above 0.97, as a lightness of 0.01 or 0.99 is, keeps its four
  channels, wherever it stands in the buffer. A pixel of nonzero alpha whose lightness
  is exactly 0.5 is not skipped: its channels become those of
  \<open>hslToRgb hue sat (1 / 2)\<close>, \<open>sat\<close> its saturation. These are its old channels when
  the target hue is the hue of the pixel, and they can be its old channels for another
  target hue: pure red, of hue 0 and saturation 1, stays pure red at the target hue 1/16,
  and the pixel (128, 127, 127), of hue 0, stays as it is at the target hue 1. They are
  other channels for pure red at the target hue 120: those of pure green.
\<close>

theorem lightness_band:
  "(snd (snd (rgbToHsl r g b)) < fl (3 / 100) \<or> fl (97 / 100) < snd (snd (rgbToHsl r g b))
      \<longrightarrow> recolorLoop hue 0 (bytesOf (ps @ (r, g, b, a) # qs))
          = bytesOf (map (recolorPixelSpec hue) ps @ (r, g, b, a) # map (recolorPixelSpec hue) qs))
   \<and> (snd (snd (rgbToHsl r g b)) = 1 / 2 \<and> a \<noteq> 0
      \<longrightarrow> recolorLoop hue 0 (bytesOf (ps @ (r, g, b, a) # qs))
          = bytesOf (map (recolorPixelSpec hue) ps
              @ (toUint8Clamp (fst (hslToRgb hue (fst (snd (rgbToHsl r g b))) (1 / 2))),
                 toUint8Clamp (fst (snd (hslToRgb hue (fst (snd (rgbToHsl r g b))) (1 / 2)))),
                 toUint8Clamp (snd (snd (hslToRgb hue (fst (snd (rgbToHsl r g b))) (1 / 2)))), a)
              # map (recolorPixelSpec hue) qs))
   \<and> recolorLoop (Some (fst (rgbToHsl r g b))) 0 (bytesOf (ps @ (r, g, b, a) # qs))
       = bytesOf (map (recolorPixelSpec (Some (fst (rgbToHsl r g b)))) ps @ (r, g, b, a)
           # map (recolorPixelSpec (Some (fst (rgbToHsl r g b)))) qs)
   \<and> rgbToHsl 255 0 0 = (0, 1, 1 / 2)
   \<and> recolorLoop (Some 120) 0 [255, 0, 0, 255] = [0, 255, 0, 255]
   \<and> recolorLoop (Some (1 / 16)) 0 [255, 0, 0, 255] = [255, 0, 0, 255]
   \<and> fst (rgbToHsl 128 127 127) = 0 \<and> snd (snd (rgbToHsl 128 127 127)) = 1 / 2
   \<and> recolorLoop (Some 1) 0 [128, 127, 127, 255] = [128, 127, 127, 255]"
proof -
  let ?l = "snd (snd (rgbToHsl r g b))"
  have half: "\<not> (1 / 2 < fl (3 / 100))" "\<not> (fl (97 / 100) < 1 / 2)"
    by (simp_all add: fl_ev)
  have skip: "recolorPixelSpec hue (r, g, b, a) = (r, g, b, a)"
    if "?l < fl (3 / 100) \<or> fl (97 / 100) < ?l"
    using that by (auto simp: recolorPixelSpec_def Let_def split: prod.splits)
  have mid: "recolorPixelSpec hue (r, g, b, a) =
      (toUint8Clamp (fst (hslToRgb hue (fst (snd (rgbToHsl r g b))) (1 / 2))),
       toUint8Clamp (fst (snd (hslToRgb hue (fst (snd (rgbToHsl r g b))) (1 / 2)))),
       toUint8Clamp (snd (snd (hslToRgb hue (fst (snd (rgbToHsl r g b))) (1 / 2)))), a)"
    if "?l = 1 / 2 \<and> a \<noteq> 0"
  proof -
    from that have l: "?l = 1 / 2" and a: "a \<noteq> 0" by simp_all
    show ?thesis unfolding recolorPixelSpec_unfold l using a half by simp
  qed
  have "recolorLoop (Some 120) 0 (bytesOf [(255, 0, 0, 255)]) = [0, 255, 0, 255]"
    unfolding recolorLoop_bytesOf by (simp add: px_red_120)
  then have red: "recolorLoop (Some 120) 0 [255, 0, 0, 255] = [0, 255, 0, 255]"
    by simp
  have "recolorLoop (Some (1 / 16)) 0 (bytesOf [(255, 0, 0, 255)]) = [255, 0, 0, 255]"
    unfolding recolorLoop_bytesOf by (simp add: px_red_sixteenth)
  then have red16: "recolorLoop (Some (1 / 16)) 0 [255, 0, 0, 255] = [255, 0, 0, 255]"
    by simp
  have "recolorLoop (Some 1) 0 (bytesOf [(128, 127, 127, 255)]) = [128, 127, 127, 255]"
    unfolding recolorLoop_bytesOf by (simp add: px_dull_1)
  then have dull: "recolorLoop (Some 1) 0 [128, 127, 127, 255] = [128, 127, 127, 255]"
    by simp
  have band: "?l < fl (3 / 100) \<or> fl (97 / 100) < ?l
      \<longrightarrow> recolorLoop hue 0 (bytesOf (ps @ (r, g, b, a) # qs))
          = bytesOf (map (recolorPixelSpec hue) ps @ (r, g, b, a) # map (recolorPixelSpec hue) qs)"
    unfolding recolorLoop_bytesOf using skip by simp
  have replaced: "?l = 1 / 2 \<and> a \<noteq> 0
      \<longrightarrow> recolorLoop hue 0 (bytesOf (ps @ (r, g, b, a) # qs))
          = bytesOf (map (recolorPixelSpec hue) ps
              @ (toUint8Clamp (fst (hslToRgb hue (fst (snd (rgbToHsl r g b))) (1 / 2))),
                 toUint8Clamp (fst (snd (hslToRgb hue (fst (snd (rgbToHsl r g b))) (1 / 2)))),
                 toUint8Clamp (snd (snd (hslToRgb hue (fst (snd (rgbToHsl r g b))) (1 / 2)))), a)
              # map (recolorPixelSpec hue) qs)"
    unfolding recolorLoop_bytesOf using mid by simp
  have own: "recolorLoop (Some (fst (rgbToHsl r g b))) 0 (bytesOf (ps @ (r, g, b, a) # qs))
       = bytesOf (map (recolorPixelSpec (Some (fst (rgbToHsl r g b)))) ps @ (r, g, b, a)
           # map (recolorPixelSpec (Some (fst (rgbToHsl r g b)))) qs)"
    unfolding recolorLoop_bytesOf by (simp add: own_hue_unchanged)
  have d: "fst (rgbToHsl 128 127 127) = 0" "snd (snd (rgbToHsl 128 127 127)) = 1 / 2"
    by (simp_all add: hsl_dull)
  show ?thesis
    by (intro conjI band replaced own hsl_red red red16 d dull)
qed

theorem lightness_band_witness:
  "snd (snd (rgbToHsl 2 2 2)) < fl (3 / 100)
   \<and> recolorLoop (Some 200) 0 [2, 2, 2, 255] = [2, 2, 2, 255]
   \<and> fl (97 / 100) < snd (snd (rgbToHsl 254 250 252))
   \<and> recolorLoop (Some 200) 0 [254, 250, 252, 255] = [254, 250, 252, 255]
   \<and> snd (snd (rgbToHsl 255 0 0)) = 1 / 2
   \<and> recolorLoop (Some 120) 0 [255, 0, 0, 255] = [0, 255, 0, 255]"
  using lightness_band[of 2 2 2 "Some 200" "[]" 255 "[]"]
    lightness_band[of 254 250 252 "Some 200" "[]" 255 "[]"]
    lightness_band[of 255 0 0 "Some 120" "[]" 255 "[]"]
    hsl_dark hsl_light
  by (simp add: hsl_red hslToRgb_red_120 toUint8Clamp_def)

text \<open>
  The pixel (128, 127, 127) has lightness exactly 0.5 and hue 0. Recolored to the
  target hue 1, which differs from its own, it keeps its channels: the new channels
  round to the old ones.
\<close>

theorem lightness_half_unchanged_counterexample:
  "snd (snd (rgbToHsl 128 127 127)) = 1 / 2
   \<and> fst (rgbToHsl 128 127 127) = 0
   \<and> Some (1 :: real) \<noteq> Some (fst (rgbToHsl 128 127 127))
   \<and> recolorLoop (Some 1) 0 [128, 127, 127, 255] = [128, 127, 127, 255]"
proof -
  have "recolorLoop (Some 1) 0 (bytesOf [(128, 127, 127, 255)]) = [128, 127, 127, 255]"
    unfolding recolorLoop_bytesOf by (simp add: px_dull_1)
  then show ?thesis by (simp add: hsl_dull)
qed

section \<open>The remembered original over a run of calls\<close>

lemma run_append: "run e (cs @ ds) s = run e ds (run e cs s)"
  by (induction cs arbitrary: s) simp_all

text \<open>
  A key of the cache names one element, when the texts of the targets have no
  vertical bar: the text after the last bar of the key is the text of the target, the
  text before it is the id.
\<close>

lemma split_at_bar:
  assumes "i @ CHR ''|'' # a = j @ CHR ''|'' # b" "CHR ''|'' \<notin> set a" "CHR ''|'' \<notin> set b"
  shows "i = j"
proof -
  let ?P = "\<lambda>c. c \<noteq> CHR ''|''"
  have "rev a @ CHR ''|'' # rev i = rev b @ CHR ''|'' # rev j"
    using arg_cong[OF assms(1), of rev] by simp
  then have "dropWhile ?P (rev a @ CHR ''|'' # rev i) = dropWhile ?P (rev b @ CHR ''|'' # rev j)"
    by simp
  moreover have "dropWhile ?P (rev a @ CHR ''|'' # rev i) = CHR ''|'' # rev i"
    using assms(2) by (auto simp: dropWhile_append3)
  moreover have "dropWhile ?P (rev b @ CHR ''|'' # rev j) = CHR ''|'' # rev j"
    using assms(3) by (auto simp: dropWhile_append3)
  ultimately show ?thesis by simp
qed

lemma cacheKey_inj:
  "barFree e t \<Longrightarrow> barFree e t' \<Longrightarrow> cacheKey e i t = cacheKey e j t' \<Longrightarrow> i = j"
  using split_at_bar[of i "toStr e t" j "toStr e t'"] by (simp add: barFree_def cacheKey_def)

text \<open>What one call on an element of the page does to it and to the cache.\<close>

lemma step_facts:
  assumes "elements s itemId = Some el" and "setHueInternal e itemId t s = (out, s')"
  shows "\<exists>el'. elements s' itemId = Some el'
    \<and> (truthy (dataset_originalSrc el) \<longrightarrow> dataset_originalSrc el' = dataset_originalSrc el)
    \<and> (out = Returned CacheHit \<or> out = Pending \<longrightarrow> dataset_originalSrc el' = dataset_originalSrc el)
    \<and> (\<not> truthy (dataset_originalSrc el) \<and> out \<noteq> Returned CacheHit \<and> out \<noteq> Pending
          \<longrightarrow> dataset_originalSrc el' = Some (currentSource el))
    \<and> (\<not> truthy (dataset_originalSrc el') \<and> out \<noteq> Returned CacheHit
          \<longrightarrow> currentSource el' = currentSource el)
    \<and> (out = Returned CacheHit \<longrightarrow> cache s (cacheKey e itemId t) \<noteq> None)
    \<and> (\<forall>k. cache s' k \<noteq> None \<longrightarrow>
          cache s k \<noteq> None \<or> (k = cacheKey e itemId t \<and> truthy (dataset_originalSrc el')))
    \<and> (t = Null \<longrightarrow> out = Returned ResetDone \<and> dataset_originalSrc el' = Some (src el')
          \<and> style_filter el' = [])
    \<and> (\<forall>j. j \<noteq> itemId \<longrightarrow> elements s' j = elements s j)"
proof (cases "t = Null")
  case True
  show ?thesis
  proof (cases "truthy (dataset_originalSrc el)")
    case yes: True
    then obtain x where x: "dataset_originalSrc el = Some x" "x \<noteq> []"
      by (auto simp: truthy_def split: option.splits)
    have "out = Returned ResetDone"
      "s' = putElement itemId (el\<lparr>src := x, style_filter := []\<rparr>) s"
      using assms True yes x by (simp_all add: setHueInternal_def Let_def)
    then show ?thesis using True yes x by simp
  next
    case no: False
    show ?thesis
    proof (cases "currentSource el = []")
      case empty: True
      have "out = Returned ResetDone"
        "s' = putElement itemId (el\<lparr>dataset_originalSrc := Some [], style_filter := []\<rparr>) s"
        using assms True no empty
        by (simp_all add: setHueInternal_def Let_def ensureOriginalSrc_falsy truthy_def)
      moreover have "src el = []" using empty by (simp add: currentSource_def split: if_splits)
      ultimately show ?thesis using True no empty by (auto simp: currentSource_def split: if_splits)
    next
      case full: False
      have "out = Returned ResetDone"
        "s' = putElement itemId (el\<lparr>dataset_originalSrc := Some (currentSource el),
            src := currentSource el, style_filter := []\<rparr>) s"
        using assms True no full
        by (simp_all add: setHueInternal_def Let_def ensureOriginalSrc_falsy truthy_def)
      then show ?thesis using True no full by (simp add: truthy_def)
    qed
  qed
next
  case False
  define el1 where "el1 = (if src el = [] \<and> truthy (dataset_src el)
                      then el\<lparr>src := the (dataset_src el)\<rparr> else el)"
  define el2 where "el2 = (if \<not> truthy (crossOrigin el1)
                      then el1\<lparr>crossOrigin := Some ''anonymous''\<rparr> else el1)"
  have o2: "dataset_originalSrc el2 = dataset_originalSrc el"
    by (simp add: el2_def el1_def)
  have c2: "currentSource el2 = currentSource el"
    by (auto simp: el2_def el1_def currentSource_def truthy_def split: option.splits)
  have e3: "src el2 \<noteq> [] \<Longrightarrow> dataset_originalSrc (ensureOriginalSrc el2) =
      (if truthy (dataset_originalSrc el) then dataset_originalSrc el else Some (currentSource el))"
    using o2 c2 by (simp add: ensureOriginalSrc_def)
  have t3: "src el2 \<noteq> [] \<Longrightarrow> truthy (dataset_originalSrc (ensureOriginalSrc el2))"
    using o2 by (simp add: ensureOriginalSrc_def currentSource_def truthy_def)
  show ?thesis
  proof (cases "ready e el2")
    case None
    then show ?thesis using assms False
      by (auto simp: setHueInternal_def Let_def el1_def[symmetric] el2_def[symmetric] o2 c2)
  next
    case (Some bm)
    then have "src el2 \<noteq> []" by (simp add: ready_src)
    note e3' = e3[OF this] and t3' = t3[OF this]
    show ?thesis using assms False Some e3' t3'
      by (auto simp: setHueInternal_def Let_def el1_def[symmetric] el2_def[symmetric] o2
          split: option.splits if_splits)
  qed
qed

lemma step_absent:
  "elements s itemId = None \<Longrightarrow> setHueInternal e itemId t s = (Returned NoElement, s)"
  by (simp add: setHueInternal_def)

text \<open>
  What holds after every run of calls that starts with an empty cache: the remembered
  original of an element is the one it had at the start or, when that was not set,
  the source it had at the start; as long as none is set the source is the one it had
  at the start; and every key of the cache belongs to an element whose remembered
  original is set.
\<close>

lemma run_snoc: "run e (cs @ [c]) s = snd (setHueInternal e (fst c) (snd c) (run e cs s))"
  by (simp add: run_append)

lemma original_kept:
  assumes "elements s i = Some el" "truthy (dataset_originalSrc el)"
  shows "\<exists>el'. elements (run e ds s) i = Some el' \<and> dataset_originalSrc el' = dataset_originalSrc el"
proof (induction ds rule: rev_induct)
  case Nil
  then show ?case using assms by simp
next
  case (snoc c ds)
  let ?s = "run e ds s"
  from snoc obtain el1 where el1: "elements ?s i = Some el1"
    "dataset_originalSrc el1 = dataset_originalSrc el" by blast
  obtain out s' where st: "setHueInternal e (fst c) (snd c) ?s = (out, s')"
    by (cases "setHueInternal e (fst c) (snd c) ?s")
  show ?case
  proof (cases "elements ?s (fst c)")
    case None
    then show ?thesis using el1 by (simp add: run_snoc step_absent)
  next
    case (Some elc)
    show ?thesis
    proof (cases "fst c = i")
      case True
      from step_facts[OF el1(1) st[unfolded True]] el1(2) assms(2)
      show ?thesis using st by (auto simp: run_snoc)
    next
      case False
      from step_facts[OF Some st] False have "elements s' i = elements ?s i" by auto
      then show ?thesis using el1 st by (simp add: run_snoc)
    qed
  qed
qed

lemma run_invariant:
  assumes c0: "\<forall>k. cache s0 k = None"
    and bf: "\<forall>c \<in> set cs. barFree e (snd c)"
    and e0: "elements s0 i = Some el0"
  shows "\<exists>el. elements (run e cs s0) i = Some el
    \<and> (dataset_originalSrc el = dataset_originalSrc el0
        \<or> \<not> truthy (dataset_originalSrc el0) \<and> dataset_originalSrc el = Some (currentSource el0))
    \<and> (\<not> truthy (dataset_originalSrc el) \<longrightarrow> currentSource el = currentSource el0)
    \<and> (\<forall>k. cache (run e cs s0) k \<noteq> None \<longrightarrow>
          (\<exists>j t elj. k = cacheKey e j t \<and> barFree e t \<and> elements (run e cs s0) j = Some elj
             \<and> truthy (dataset_originalSrc elj)))"
  using bf
proof (induction cs rule: rev_induct)
  case Nil
  then show ?case using c0 e0 by simp
next
  case (snoc c cs)
  let ?s = "run e cs s0"
  have bfc: "barFree e (snd c)" using snoc.prems by simp
  from snoc obtain el where el: "elements ?s i = Some el"
    and A: "dataset_originalSrc el = dataset_originalSrc el0
        \<or> \<not> truthy (dataset_originalSrc el0) \<and> dataset_originalSrc el = Some (currentSource el0)"
    and B: "\<not> truthy (dataset_originalSrc el) \<longrightarrow> currentSource el = currentSource el0"
    and C: "\<forall>k. cache ?s k \<noteq> None \<longrightarrow>
          (\<exists>j t elj. k = cacheKey e j t \<and> barFree e t \<and> elements ?s j = Some elj
             \<and> truthy (dataset_originalSrc elj))"
    by auto
  obtain out s' where st: "setHueInternal e (fst c) (snd c) ?s = (out, s')"
    by (cases "setHueInternal e (fst c) (snd c) ?s")
  have r: "run e (cs @ [c]) s0 = s'" using st by (simp add: run_snoc)
  show ?case
  proof (cases "elements ?s (fst c)")
    case None
    then have "s' = ?s" using st by (simp add: step_absent)
    then show ?thesis unfolding r using el A B C by blast
  next
    case (Some elc)
    note sf = step_facts[OF Some st]
    then obtain elc' where elc': "elements s' (fst c) = Some elc'"
      and keep: "truthy (dataset_originalSrc elc) \<longrightarrow> dataset_originalSrc elc' = dataset_originalSrc elc"
      and hitpend: "out = Returned CacheHit \<or> out = Pending \<longrightarrow> dataset_originalSrc elc' = dataset_originalSrc elc"
      and rec: "\<not> truthy (dataset_originalSrc elc) \<and> out \<noteq> Returned CacheHit \<and> out \<noteq> Pending
          \<longrightarrow> dataset_originalSrc elc' = Some (currentSource elc)"
      and cur: "\<not> truthy (dataset_originalSrc elc') \<and> out \<noteq> Returned CacheHit
          \<longrightarrow> currentSource elc' = currentSource elc"
      and hit: "out = Returned CacheHit \<longrightarrow> cache ?s (cacheKey e (fst c) (snd c)) \<noteq> None"
      and cch: "\<forall>k. cache s' k \<noteq> None \<longrightarrow>
          cache ?s k \<noteq> None \<or> (k = cacheKey e (fst c) (snd c) \<and> truthy (dataset_originalSrc elc'))"
      and oth: "\<forall>j. j \<noteq> fst c \<longrightarrow> elements s' j = elements ?s j"
      by blast
    have hit_truthy: "truthy (dataset_originalSrc elc)" if "out = Returned CacheHit"
    proof -
      from hit that C obtain j t elj where k: "cacheKey e (fst c) (snd c) = cacheKey e j t"
        "barFree e t" "elements ?s j = Some elj" "truthy (dataset_originalSrc elj)" by blast
      from cacheKey_inj[OF bfc k(2) k(1)] have "j = fst c" by simp
      then show ?thesis using k(3,4) Some by simp
    qed
    have C': "\<forall>k. cache s' k \<noteq> None \<longrightarrow>
          (\<exists>j t elj. k = cacheKey e j t \<and> barFree e t \<and> elements s' j = Some elj
             \<and> truthy (dataset_originalSrc elj))"
    proof (intro allI impI)
      fix k assume "cache s' k \<noteq> None"
      with cch consider "cache ?s k \<noteq> None" | "k = cacheKey e (fst c) (snd c)" "truthy (dataset_originalSrc elc')"
        by blast
      then show "\<exists>j t elj. k = cacheKey e j t \<and> barFree e t \<and> elements s' j = Some elj
             \<and> truthy (dataset_originalSrc elj)"
      proof cases
        case 1
        with C obtain j t elj where k: "k = cacheKey e j t" "barFree e t" "elements ?s j = Some elj"
          "truthy (dataset_originalSrc elj)" by blast
        show ?thesis
        proof (cases "j = fst c")
          case True
          then have "elj = elc" using k(3) Some by simp
          then have "truthy (dataset_originalSrc elc')" using keep k(4) by simp
          then show ?thesis using k(1,2) True elc' by blast
        next
          case False
          then have "elements s' j = Some elj" using oth k(3) by simp
          then show ?thesis using k by blast
        qed
      next
        case 2
        then show ?thesis using bfc elc' by blast
      qed
    qed
    show ?thesis
    proof (cases "fst c = i")
      case False
      then have "elements s' i = Some el" using oth el by simp
      then show ?thesis unfolding r using A B C' by blast
    next
      case True
      then have same: "elc = el" using Some el by simp
      have el': "elements s' i = Some elc'" using elc' True by simp
      have A': "dataset_originalSrc elc' = dataset_originalSrc el0
        \<or> \<not> truthy (dataset_originalSrc el0) \<and> dataset_originalSrc elc' = Some (currentSource el0)"
      proof (cases "truthy (dataset_originalSrc el)")
        case True
        then show ?thesis using keep A same by auto
      next
        case no: False
        then have n0: "\<not> truthy (dataset_originalSrc el0)" using A by (auto simp: truthy_def)
        have nh: "out \<noteq> Returned CacheHit" using hit_truthy no same by blast
        show ?thesis
        proof (cases "out = Pending")
          case True
          then show ?thesis using hitpend A same by auto
        next
          case False
          then have "dataset_originalSrc elc' = Some (currentSource el)" using rec no nh same by simp
          then show ?thesis using B no n0 by simp
        qed
      qed
      have B': "\<not> truthy (dataset_originalSrc elc') \<longrightarrow> currentSource elc' = currentSource el0"
      proof
        assume f: "\<not> truthy (dataset_originalSrc elc')"
        have no: "\<not> truthy (dataset_originalSrc el)" using f keep same by auto
        have nh: "out \<noteq> Returned CacheHit" using hit_truthy no same by blast
        show "currentSource elc' = currentSource el0" using cur f nh B no same by simp
      qed
      show ?thesis unfolding r using el' A' B' C' by blast
    qed
  qed
qed

text \<open>
  C8. The calls of the page run one after the other, from the state in which the
  script has loaded, where the cache is empty (line 28); the elements change by these
  calls only, and the texts of the targets have no vertical bar. For an element of the
  page, after any such run and for any next call on it:
  the remembered original is the one the element had at the start or, when none was set
  then, the source it had at the start (\<^verbatim>\<open>src\<close>, else \<^verbatim>\<open>data-src\<close>, else the empty
  string), never a source that a recolor has produced since;
  as long as none is set, the source of the element is the one it had at the start;
  a remembered original that is set (not empty) is not changed by the next call,
  however it ends, nor by any run of calls after it;
  a call that stays pending leaves the remembered original as it is;
  a call that ends in the cache finds a remembered original set, which an earlier call
  has recorded or the page has given;
  a call that finds none set and does not stay pending (a reset, a recolor, the
  fallback or the exception of the tainted canvas) records the source the element has
  when the call begins;
  a reset ends with the source equal to the remembered original and with an empty
  filter style; and no other element changes.
\<close>

theorem original_recorded_once:
  assumes start: "cache s0 = Map.empty"
    and texts: "\<forall>c \<in> set calls. barFree e (snd c)" "barFree e t"
    and page: "elements s0 itemId = Some el0"
    and call: "setHueInternal e itemId t (run e calls s0) = (out, s')"
  shows "\<exists>el el'. elements (run e calls s0) itemId = Some el \<and> elements s' itemId = Some el'
    \<and> (dataset_originalSrc el = dataset_originalSrc el0
        \<or> \<not> truthy (dataset_originalSrc el0) \<and> dataset_originalSrc el = Some (currentSource el0))
    \<and> (\<not> truthy (dataset_originalSrc el) \<longrightarrow> currentSource el = currentSource el0)
    \<and> (truthy (dataset_originalSrc el) \<longrightarrow> dataset_originalSrc el' = dataset_originalSrc el)
    \<and> (out = Pending \<longrightarrow> dataset_originalSrc el' = dataset_originalSrc el)
    \<and> (out = Returned CacheHit \<longrightarrow> truthy (dataset_originalSrc el))
    \<and> (\<not> truthy (dataset_originalSrc el) \<and> out \<noteq> Pending
          \<longrightarrow> dataset_originalSrc el' = Some (currentSource el))
    \<and> (t = Null \<longrightarrow> out = Returned ResetDone \<and> dataset_originalSrc el' = Some (src el')
          \<and> style_filter el' = [])
    \<and> (truthy (dataset_originalSrc el') \<longrightarrow>
          (\<forall>ds. \<exists>el''. elements (run e ds s') itemId = Some el''
             \<and> dataset_originalSrc el'' = dataset_originalSrc el'))
    \<and> (\<forall>j. j \<noteq> itemId \<longrightarrow> elements s' j = elements (run e calls s0) j)"
proof -
  let ?s = "run e calls s0"
  have c0: "\<forall>k. cache s0 k = None" using start by simp
  from run_invariant[OF c0 texts(1) page] obtain el where el: "elements ?s itemId = Some el"
    and A: "dataset_originalSrc el = dataset_originalSrc el0
        \<or> \<not> truthy (dataset_originalSrc el0) \<and> dataset_originalSrc el = Some (currentSource el0)"
    and B: "\<not> truthy (dataset_originalSrc el) \<longrightarrow> currentSource el = currentSource el0"
    and C: "\<forall>k. cache ?s k \<noteq> None \<longrightarrow>
          (\<exists>j t elj. k = cacheKey e j t \<and> barFree e t \<and> elements ?s j = Some elj
             \<and> truthy (dataset_originalSrc elj))"
    by blast
  from step_facts[OF el call] obtain el' where el': "elements s' itemId = Some el'"
    and keep: "truthy (dataset_originalSrc el) \<longrightarrow> dataset_originalSrc el' = dataset_originalSrc el"
    and hitpend: "out = Returned CacheHit \<or> out = Pending \<longrightarrow> dataset_originalSrc el' = dataset_originalSrc el"
    and rec: "\<not> truthy (dataset_originalSrc el) \<and> out \<noteq> Returned CacheHit \<and> out \<noteq> Pending
          \<longrightarrow> dataset_originalSrc el' = Some (currentSource el)"
    and hit: "out = Returned CacheHit \<longrightarrow> cache ?s (cacheKey e itemId t) \<noteq> None"
    and res: "t = Null \<longrightarrow> out = Returned ResetDone \<and> dataset_originalSrc el' = Some (src el')
          \<and> style_filter el' = []"
    and oth: "\<forall>j. j \<noteq> itemId \<longrightarrow> elements s' j = elements ?s j"
    by blast
  have hit_truthy: "out = Returned CacheHit \<longrightarrow> truthy (dataset_originalSrc el)"
  proof
    assume "out = Returned CacheHit"
    with hit C obtain j t' elj where k: "cacheKey e itemId t = cacheKey e j t'"
      "barFree e t'" "elements ?s j = Some elj" "truthy (dataset_originalSrc elj)" by blast
    from cacheKey_inj[OF texts(2) k(2) k(1)] have "j = itemId" by simp
    then show "truthy (dataset_originalSrc el)" using k(3,4) el by simp
  qed
  have later: "truthy (dataset_originalSrc el') \<longrightarrow>
          (\<forall>ds. \<exists>el''. elements (run e ds s') itemId = Some el''
             \<and> dataset_originalSrc el'' = dataset_originalSrc el')"
    using original_kept[OF el'] by blast
  have rec': "\<not> truthy (dataset_originalSrc el) \<and> out \<noteq> Pending
          \<longrightarrow> dataset_originalSrc el' = Some (currentSource el)"
    using rec hit_truthy by blast
  show ?thesis
    by (rule exI[of _ el], rule exI[of _ el'])
      (intro conjI el el' A B keep hit_truthy rec' res later oth, use hitpend in blast)
qed

lemma example_run:
  "run exampleEnv [(''hat'', Hue 200), (''hat'', Hue 200)] exampleState = recoloredHat"
  using first_call second_call by (simp add: setHue_def clampHue_200)

lemma reset_recolored:
  "setHueInternal exampleEnv ''hat'' Null recoloredHat =
    (Returned ResetDone,
     putElement ''hat''
       (hat\<lparr>dataset_originalSrc := Some ''hat.png'', crossOrigin := Some ''anonymous''\<rparr>)
       recoloredHat)"
  by (simp add: setHueInternal_def truthy_def ensureOriginalSrc_def recoloredHat_def hat_def
      cong: let_weak_cong)

theorem original_recorded_once_witness:
  "cache exampleState = Map.empty
   \<and> barFree exampleEnv (Hue 200) \<and> barFree exampleEnv Null
   \<and> elements exampleState ''hat'' = Some hat
   \<and> dataset_originalSrc hat = None \<and> currentSource hat = ''hat.png''
   \<and> run exampleEnv [(''hat'', Hue 200), (''hat'', Hue 200)] exampleState = recoloredHat
   \<and> src (the (elements recoloredHat ''hat'')) = ''data:blue''
   \<and> dataset_originalSrc (the (elements recoloredHat ''hat'')) = Some ''hat.png''
   \<and> fst (setHueInternal exampleEnv ''hat'' Null recoloredHat) = Returned ResetDone
   \<and> src (the (elements (snd (setHueInternal exampleEnv ''hat'' Null recoloredHat)) ''hat''))
       = ''hat.png''
   \<and> dataset_originalSrc
        (the (elements (snd (setHueInternal exampleEnv ''hat'' Null recoloredHat)) ''hat''))
       = Some ''hat.png''"
  using original_recorded_once[of exampleState "[(''hat'', Hue 200), (''hat'', Hue 200)]"
      exampleEnv Null "''hat''" hat "Returned ResetDone"
      "snd (setHueInternal exampleEnv ''hat'' Null recoloredHat)"]
  unfolding example_run reset_recolored
  by (auto simp: barFree_def exampleEnv_def exampleState_def hat_def recoloredHat_def
      currentSource_def truthy_def)

end
